theory Spec2Isabelle
  imports Complex_Main "HOL-Library.Word" "HOL-Library.FSet"
begin

unbundle bit_operations_syntax

section \<open>The genotype tensor\<close>

text \<open>
  \<^verbatim>\<open>Genotypes.data\<close> is a numpy array indexed [sample][variant][channel]. Its element
  type is \<^verbatim>\<open>uint8\<close> after \<^verbatim>\<open>read\<close> and \<^verbatim>\<open>bool\<close> after \<^verbatim>\<open>check_biallelic\<close>; the two
  element types are the two constructors of \<open>cells\<close>. A numpy array keeps its shape
  even where an axis is empty, so the shape is stored beside the nested lists.
\<close>

datatype cells = U8 "8 word list list list" | BOOL "bool list list list"

record ndarray =
  shape0 :: nat
  shape1 :: nat
  shape2 :: nat
  cells :: cells

definition rect3 :: "nat \<Rightarrow> nat \<Rightarrow> nat \<Rightarrow> 'a list list list \<Rightarrow> bool" where
  "rect3 n p c xs =
     (length xs = n \<and> list_all (\<lambda>row. length row = p \<and> list_all (\<lambda>cell. length cell = c) row) xs)"

text \<open>The nested lists of an array agree with its shape (every numpy array does).\<close>

definition wf_ndarray :: "ndarray \<Rightarrow> bool" where
  "wf_ndarray d =
     (case cells d of
        U8 x \<Rightarrow> rect3 (shape0 d) (shape1 d) (shape2 d) x
      | BOOL y \<Rightarrow> rect3 (shape0 d) (shape1 d) (shape2 d) y)"

text \<open>The elements as allele counts: a \<^verbatim>\<open>uint8\<close> is its value, a \<^verbatim>\<open>bool\<close> is 0 or 1.\<close>

definition counts :: "ndarray \<Rightarrow> nat list list list" where
  "counts d =
     (case cells d of
        U8 x \<Rightarrow> map (map (map unat)) x
      | BOOL y \<Rightarrow> map (map (map of_bool)) y)"

definition is_bool :: "ndarray \<Rightarrow> bool" where
  "is_bool d = (case cells d of U8 x \<Rightarrow> False | BOOL y \<Rightarrow> True)"

subsection \<open>The numpy operations the stages use\<close>

text \<open>\<^verbatim>\<open>np.nonzero(m)\<close> of a 2-d boolean array: the coordinates of the true entries in
  row-major order (the source unpacks them as \<^verbatim>\<open>samp_idx, variant_idx\<close>).\<close>

definition nonzero :: "bool list list \<Rightarrow> (nat \<times> nat) list" where
  "nonzero m =
     concat (map (\<lambda>(i, row). map (Pair i) (filter (\<lambda>j. row ! j) [0..<length row]))
                 (enumerate 0 m))"

text \<open>\<^verbatim>\<open>np.delete(xs, idx)\<close> along one axis, for indices within range: the entries whose
  position is not listed are kept, in order (a position listed twice is removed once).\<close>

definition np_delete :: "nat list \<Rightarrow> 'a list \<Rightarrow> 'a list" where
  "np_delete idx xs = map ((!) xs) (filter (\<lambda>i. i \<notin> set idx) [0..<length xs])"

definition delete_axis0 :: "nat list \<Rightarrow> ndarray \<Rightarrow> ndarray" where
  "delete_axis0 idx d =
     d\<lparr>shape0 := length (np_delete idx [0..<shape0 d]),
       cells := (case cells d of
                   U8 x \<Rightarrow> U8 (np_delete idx x)
                 | BOOL y \<Rightarrow> BOOL (np_delete idx y))\<rparr>"

definition delete_axis1 :: "nat list \<Rightarrow> ndarray \<Rightarrow> ndarray" where
  "delete_axis1 idx d =
     d\<lparr>shape1 := length (np_delete idx [0..<shape1 d]),
       cells := (case cells d of
                   U8 x \<Rightarrow> U8 (map (np_delete idx) x)
                 | BOOL y \<Rightarrow> BOOL (map (np_delete idx) y))\<rparr>"

text \<open>\<^verbatim>\<open>data[:, :, :k]\<close>.\<close>

definition take_channels :: "nat \<Rightarrow> ndarray \<Rightarrow> ndarray" where
  "take_channels k d =
     d\<lparr>shape2 := min k (shape2 d),
       cells := (case cells d of
                   U8 x \<Rightarrow> U8 (map (map (take k)) x)
                 | BOOL y \<Rightarrow> BOOL (map (map (take k)) y))\<rparr>"

text \<open>\<^verbatim>\<open>data.astype(np.bool_)\<close>: an element becomes true exactly when it is not zero.\<close>

definition astype_bool :: "ndarray \<Rightarrow> ndarray" where
  "astype_bool d =
     d\<lparr>cells := (case cells d of
                   U8 x \<Rightarrow> BOOL (map (map (map (\<lambda>v. v \<noteq> 0))) x)
                 | BOOL y \<Rightarrow> BOOL y)\<rparr>"

text \<open>\<^verbatim>\<open>np.any(data[:, :, :2] == np.iinfo(np.uint8).max, axis=2)\<close>. A boolean element
  never equals 255.\<close>

definition missing_mask :: "ndarray \<Rightarrow> bool list list" where
  "missing_mask d =
     (case cells d of
        U8 x \<Rightarrow> map (map (\<lambda>cell. list_ex (\<lambda>v. v = 255) (take 2 cell))) x
      | BOOL y \<Rightarrow> map (map (\<lambda>cell. False)) y)"

text \<open>\<^verbatim>\<open>np.any(data[:, :, :2] > 1, axis=2)\<close>, evaluated on \<^verbatim>\<open>uint8\<close> data only.\<close>

definition multiallelic_mask :: "ndarray \<Rightarrow> bool list list" where
  "multiallelic_mask d =
     (case cells d of
        U8 x \<Rightarrow> map (map (\<lambda>cell. list_ex (\<lambda>v. 1 < v) (take 2 cell))) x
      | BOOL y \<Rightarrow> map (map (\<lambda>cell. False)) y)"

text \<open>\<^verbatim>\<open>(data[:, :, 0] ^ data[:, :, 1]) & (~data[:, :, 2])\<close>, read as numpy's
  \<^verbatim>\<open>np.any\<close> and \<^verbatim>\<open>np.nonzero\<close> read it (an entry counts when it is not zero). On
  \<^verbatim>\<open>uint8\<close> the three operators are bitwise, on \<^verbatim>\<open>bool\<close> they are logical. The
  stage evaluates it only where the array has at least three channels.\<close>

definition unphased_mask :: "ndarray \<Rightarrow> bool list list" where
  "unphased_mask d =
     (case cells d of
        U8 x \<Rightarrow> map (map (\<lambda>cell. ((cell ! 0 XOR cell ! 1) AND NOT (cell ! 2)) \<noteq> 0)) x
      | BOOL y \<Rightarrow> map (map (\<lambda>cell. (cell ! 0 \<noteq> cell ! 1) \<and> \<not> cell ! 2)) y)"

text \<open>\<^verbatim>\<open>data[:, need, :2] = ~data[:, need, :2]\<close> for a boolean mask \<open>need\<close> over the
  variant axis: \<^verbatim>\<open>~\<close> is the bitwise complement on \<^verbatim>\<open>uint8\<close> and negation on
  \<^verbatim>\<open>bool\<close>.\<close>

definition flip2 :: "('a \<Rightarrow> 'a) \<Rightarrow> bool list \<Rightarrow> 'a list list \<Rightarrow> 'a list list" where
  "flip2 f need row =
     map (\<lambda>(n, cell). if n then map f (take 2 cell) @ drop 2 cell else cell) (zip need row)"

definition invert_columns :: "bool list \<Rightarrow> ndarray \<Rightarrow> ndarray" where
  "invert_columns need d =
     d\<lparr>cells := (case cells d of
                   U8 x \<Rightarrow> U8 (map (flip2 NOT need) x)
                 | BOOL y \<Rightarrow> BOOL (map (flip2 Not need) y))\<rparr>"

section \<open>The instance\<close>

text \<open>A row of \<^verbatim>\<open>Genotypes.variants\<close>: the fields \<^verbatim>\<open>id\<close> (U50), \<^verbatim>\<open>chrom\<close> (U10),
  \<^verbatim>\<open>pos\<close> (uint32) and \<^verbatim>\<open>aaf\<close> (float64, read here as an exact real). The subclasses
  extend the row by \<^verbatim>\<open>ref\<close> and \<^verbatim>\<open>alt\<close>.\<close>

record variant =
  vid :: string
  chrom :: string
  pos :: "32 word"
  aaf :: real

record variant_refalt = variant +
  ref :: string
  alt :: string

text \<open>The name of the fourth field of the table, \<^verbatim>\<open>variants.dtype.names[3]\<close>.\<close>

datatype freq_name = Aaf | Maf

datatype error =
    MissingGenotype string string "32 word" string
  | MultiallelicVariant string string "32 word" string
  | UnphasedVariant string string "32 word" string
  | IndexError
  | ValueError
  | TypeError
  | UnboundLocalError
  | PvarFewColumns
  | PvarNoHeader

datatype msg =
    Info_ignoring_missing nat
  | Warn_all_samples_discarded
  | Warn_already_biallelic
  | Info_ignoring_multiallelic nat
  | Warn_all_variants_discarded
  | Warn_phase_already_removed
  | Warn_already_minor
  | Warn_fewer_samples nat nat
  | Warn_fewer_variants nat nat
  | Warn_no_max_variants
  | Info_loading nat
  | Info_copying nat
  | Info_removing nat
  | Warn_failed_to_load
  | Info_transposing "nat list"

record 'v genotypes =
  data :: ndarray
  samples :: "string list"
  variants :: "'v variant_scheme list"
  freq_name :: freq_name
  prephased :: bool
  samp_idx :: "(string \<rightharpoonup> nat) option"
  var_idx :: "(string \<rightharpoonup> nat) option"

text \<open>A method either returns or raises; either way the instance is left in some state
  and some messages have gone to the log.\<close>

datatype outcome = Returned | Raised error

type_synonym 'v result = "outcome \<times> 'v genotypes \<times> msg list"

text \<open>The arguments of the three error messages:
  \<^verbatim>\<open>*tuple(self.variants[variant_idx[0]])[:3], self.samples[samp_idx[0]]\<close>.\<close>

definition located ::
  "(string \<Rightarrow> string \<Rightarrow> 32 word \<Rightarrow> string \<Rightarrow> error) \<Rightarrow> 'v genotypes \<Rightarrow> nat \<times> nat \<Rightarrow> error" where
  "located mk s ij =
     (case ij of (i, j) \<Rightarrow>
        if j < length (variants s) then
          if i < length (samples s) then
            mk (vid (variants s ! j)) (chrom (variants s ! j)) (pos (variants s ! j)) (samples s ! i)
          else IndexError
        else IndexError)"

section \<open>The validation stages\<close>

subsection \<open>check_missing\<close>

definition check_missing :: "bool \<Rightarrow> 'v genotypes \<Rightarrow> 'v result" where
  "check_missing discard_also s =
     (case nonzero (missing_mask (data s)) of
        [] \<Rightarrow>
          (Returned, s,
           if discard_also \<and> shape0 (data s) = 0 then [Warn_all_samples_discarded] else [])
      | ij # rest \<Rightarrow>
          (let samp = map fst (ij # rest) in
           if discard_also then
             (let s1 = s\<lparr>data := delete_axis0 samp (data s)\<rparr> in
              if list_ex (\<lambda>i. length (samples s) \<le> i) samp then
                (Raised IndexError, s1, [Info_ignoring_missing (length samp)])
              else
                (Returned, s1\<lparr>samples := np_delete samp (samples s), samp_idx := None\<rparr>,
                 Info_ignoring_missing (length samp) #
                 (if shape0 (data s1) = 0 then [Warn_all_samples_discarded] else [])))
           else (Raised (located MissingGenotype s ij), s, [])))"

subsection \<open>check_biallelic\<close>

definition check_biallelic :: "bool \<Rightarrow> 'v genotypes \<Rightarrow> 'v result" where
  "check_biallelic discard_also s =
     (if is_bool (data s) then (Returned, s, [Warn_already_biallelic])
      else
        (case nonzero (multiallelic_mask (data s)) of
           [] \<Rightarrow>
             (Returned, s\<lparr>data := astype_bool (data s)\<rparr>,
              if discard_also \<and> shape1 (data s) = 0 then [Warn_all_variants_discarded] else [])
         | ij # rest \<Rightarrow>
             (let var = map snd (ij # rest) in
              if discard_also then
                (let s1 = s\<lparr>data := delete_axis1 var (data s)\<rparr> in
                 if list_ex (\<lambda>j. length (variants s) \<le> j) var then
                   (Raised IndexError, s1, [Info_ignoring_multiallelic (length var)])
                 else
                   (Returned,
                    s1\<lparr>data := astype_bool (data s1),
                       variants := np_delete var (variants s), var_idx := None\<rparr>,
                    Info_ignoring_multiallelic (length var) #
                    (if shape1 (data s1) = 0 then [Warn_all_variants_discarded] else [])))
              else (Raised (located MultiallelicVariant s ij), s, []))))"

subsection \<open>check_phase\<close>

definition check_phase :: "'v genotypes \<Rightarrow> 'v result" where
  "check_phase s =
     (if prephased s \<or> shape2 (data s) < 3 then (Returned, s, [Warn_phase_already_removed])
      else
        (case nonzero (unphased_mask (data s)) of
           [] \<Rightarrow> (Returned, s\<lparr>data := take_channels 2 (data s)\<rparr>, [])
         | ij # rest \<Rightarrow> (Raised (located UnphasedVariant s ij), s, [])))"

subsection \<open>to_MAC\<close>

text \<open>A boolean mask over an axis must have the length of that axis; numpy raises
  \<^verbatim>\<open>IndexError\<close> otherwise, before anything is written.\<close>

definition to_MAC :: "'v genotypes \<Rightarrow> 'v result" where
  "to_MAC s =
     (if freq_name s = Maf then (Returned, s, [Warn_already_minor])
      else
        (let need_conversion = map (\<lambda>v. 1 / 2 < aaf v) (variants s) in
         if length need_conversion \<noteq> shape1 (data s) then (Raised IndexError, s, [])
         else
           (Returned,
            s\<lparr>data := invert_columns need_conversion (data s),
              variants := map (\<lambda>v. if 1 / 2 < aaf v then v\<lparr>aaf := 1 - aaf v\<rparr> else v) (variants s),
              freq_name := Maf\<rparr>,
            [])))"

section \<open>Reading a VCF\<close>

text \<open>
  The decoding of the file is the work of \<^verbatim>\<open>cyvcf2\<close>; the model starts from what the
  decoder hands over: the sample names of the file (\<^verbatim>\<open>vcf.samples\<close>, already restricted
  to the requested samples) and the records of the requested region (\<^verbatim>\<open>vcf(region)\<close>),
  each with one row \<^verbatim>\<open>[allele, allele, phased]\<close> of Python integers per sample.
\<close>

record vcf_variant =
  ID :: string
  CHROM :: string
  POS :: int
  AAF :: real
  genotypes :: "int list list"

text \<open>\<^verbatim>\<open>Genotypes._variant_arr\<close>: the strings are cut to the widths of the fields.\<close>

definition variant_arr :: "vcf_variant \<Rightarrow> variant" where
  "variant_arr v =
     \<lparr>vid = take 50 (ID v), chrom = take 10 (CHROM v), pos = word_of_int (POS v), aaf = AAF v\<rparr>"

text \<open>\<^verbatim>\<open>np.array(variant.genotypes, dtype=np.uint8)[:, :(2 + (not self._prephased))]\<close>; the
  conversion wraps, so the decoder's -1 for a missing allele becomes 255.\<close>

definition genotype_arr :: "bool \<Rightarrow> vcf_variant \<Rightarrow> 8 word list list" where
  "genotype_arr pre v =
     map (take (2 + (if pre then 0 else 1))) (map (map word_of_int) (genotypes v))"

text \<open>
  A generator, run until it stops: what it yielded, how many records of its source it
  read, and how it stopped (\<open>Returned\<close> when it finished or left its loop, \<open>Raised\<close> when
  an exception ended it).
\<close>

record 'a gen_run =
  emitted :: "'a list"
  consumed :: nat
  stopped :: outcome

definition gen_stop :: "nat \<Rightarrow> outcome \<Rightarrow> 'a gen_run" where
  "gen_stop n oc = \<lparr>emitted = [], consumed = n, stopped = oc\<rparr>"

definition gen_skip :: "'a gen_run \<Rightarrow> 'a gen_run" where
  "gen_skip r = r\<lparr>consumed := Suc (consumed r)\<rparr>"

definition gen_yield :: "'a \<Rightarrow> 'a gen_run \<Rightarrow> 'a gen_run" where
  "gen_yield x r = r\<lparr>emitted := x # emitted r, consumed := Suc (consumed r)\<rparr>"

text \<open>\<^verbatim>\<open>Genotypes._iterate\<close>, with \<^verbatim>\<open>num_seen\<close> as an argument (0 at the start). The
  requested identifiers (the argument \<^verbatim>\<open>variants\<close>, here \<open>wanted\<close>) are a Python set.\<close>

fun iterate_vcf ::
  "bool \<Rightarrow> string fset option \<Rightarrow> nat \<Rightarrow> vcf_variant list \<Rightarrow> (8 word list list \<times> variant) gen_run" where
  "iterate_vcf pre wanted num_seen [] = gen_stop 0 Returned"
| "iterate_vcf pre wanted num_seen (v # vs) =
     (if (case wanted of None \<Rightarrow> False | Some ids \<Rightarrow> ID v |\<notin>| ids) then
        (if fcard (the wanted) \<le> num_seen then gen_stop 1 Returned
         else gen_skip (iterate_vcf pre wanted num_seen vs))
      else gen_yield (genotype_arr pre v, variant_arr v)
             (iterate_vcf pre wanted (Suc num_seen) vs))"

text \<open>Transposing \<^verbatim>\<open>(1, 0, 2)\<close> a variant-major list of per-sample rows, for \<open>n\<close>
  samples.\<close>

definition transpose_rows :: "nat \<Rightarrow> 'a list list \<Rightarrow> 'a list list" where
  "transpose_rows n xs = map (\<lambda>i. map (\<lambda>row. row ! i) xs) [0..<n]"

text \<open>The loop of the bounded mode, in \<^verbatim>\<open>read\<close> and in \<^verbatim>\<open>read_variants\<close>: it stores
  what the generator yields and leaves at the first entry that arrives once \<^verbatim>\<open>num_seen\<close>
  has reached \<^verbatim>\<open>max_variants\<close>.\<close>

fun read_loop :: "nat \<Rightarrow> nat \<Rightarrow> 'a list \<Rightarrow> 'a list" where
  "read_loop max_variants num_seen [] = []"
| "read_loop max_variants num_seen (rec # recs) =
     (if max_variants \<le> num_seen then []
      else rec # read_loop max_variants (Suc num_seen) recs)"

text \<open>
  \<^verbatim>\<open>Genotypes.read\<close>. The arguments \<open>vcf_samples\<close> and \<open>records\<close> stand for the opened
  file. The superclass call \<^verbatim>\<open>super().read()\<close> is outside the given source and is left
  out. The records of the decoder carry one row per sample of the file, so the assembled
  array has the shape (records, samples, channels); with no record at all the unbounded
  mode builds a one-dimensional empty array, whose transposition raises \<^verbatim>\<open>ValueError\<close>
  (the model then leaves the tensor as it was). A negative \<^verbatim>\<open>max_variants\<close> makes
  \<^verbatim>\<open>np.empty\<close> raise \<^verbatim>\<open>ValueError\<close>.
\<close>

definition assemble ::
  "(8 word list list \<times> variant) list \<Rightarrow> 'v genotypes \<Rightarrow> (variant list \<times> ndarray)" where
  "assemble recs s =
     (map snd recs,
      \<lparr>shape0 = length (samples s), shape1 = length recs,
        shape2 = 2 + (if prephased s then 0 else 1),
        cells = U8 (transpose_rows (length (samples s)) (map fst recs))\<rparr>)"

definition read ::
  "string list \<Rightarrow> vcf_variant list \<Rightarrow> string fset option \<Rightarrow> int option \<Rightarrow>
   unit genotypes \<Rightarrow> unit result" where
  "read vcf_samples records wanted max_variants s =
     (let s0 = s\<lparr>samples := vcf_samples\<rparr>;
          recs = emitted (iterate_vcf (prephased s0) wanted 0 records);
          max_variants = (case wanted of None \<Rightarrow> max_variants
                          | Some ids \<Rightarrow> Some (int (fcard ids)));
          n = length (samples s0);
          k = 2 + (if prephased s0 then 0 else 1)
      in case max_variants of
           None \<Rightarrow>
             (if recs = [] then
                (Raised ValueError, s0\<lparr>variants := []\<rparr>,
                 [Warn_no_max_variants, Info_loading n, Info_copying 0, Warn_failed_to_load,
                  Info_transposing [0]])
              else
                (Returned,
                 s0\<lparr>variants := fst (assemble recs s0), data := snd (assemble recs s0)\<rparr>,
                 [Warn_no_max_variants, Info_loading n, Info_copying (length recs)] @
                 (if n = 0 then [Warn_failed_to_load] else []) @
                 [Info_transposing [length recs, n, k]]))
         | Some m \<Rightarrow>
             (if m < 0 then (Raised ValueError, s0, [])
              else
                (let kept = read_loop (nat m) 0 recs; num_seen = length kept in
                 (Returned,
                  s0\<lparr>variants := fst (assemble kept s0), data := snd (assemble kept s0)\<rparr>,
                  [Info_loading n] @
                  (if num_seen < nat m then [Info_removing (nat m - num_seen)] else []) @
                  (if num_seen = 0 \<or> n = 0 then [Warn_failed_to_load] else []) @
                  [Info_transposing [num_seen, n, k]]))))"

text \<open>Running one method after another; an exception ends the run.\<close>

definition and_then :: "'v result \<Rightarrow> ('v genotypes \<Rightarrow> 'v result) \<Rightarrow> 'v result" where
  "and_then r f =
     (case r of
        (Returned, s, out) \<Rightarrow> (case f s of (oc, s', out') \<Rightarrow> (oc, s', out @ out'))
      | (Raised e, s, out) \<Rightarrow> (Raised e, s, out))"

text \<open>The instance the constructor builds; its tensor is unset until \<^verbatim>\<open>read\<close> fills it.\<close>

definition new_genotypes :: "unit genotypes" where
  "new_genotypes =
     \<lparr>data = \<lparr>shape0 = 0, shape1 = 0, shape2 = 0, cells = U8 []\<rparr>,
      samples = [], variants = [], freq_name = Aaf, prephased = False,
      samp_idx = None, var_idx = None\<rparr>"

text \<open>\<^verbatim>\<open>Genotypes.load\<close>: the call of \<^verbatim>\<open>to_MAC\<close> is commented out in the source.\<close>

definition load :: "string list \<Rightarrow> vcf_variant list \<Rightarrow> string fset option \<Rightarrow> unit result" where
  "load vcf_samples records wanted =
     and_then (and_then (and_then
       (read vcf_samples records wanted None new_genotypes)
       (check_missing False)) (check_biallelic False)) check_phase"

section \<open>Indexing and subsetting\<close>

text \<open>\<^verbatim>\<open>dict(zip(ids, range(len(ids))))\<close>: a later duplicate overrides an earlier one.\<close>

definition build_index :: "string list \<Rightarrow> (string \<rightharpoonup> nat)" where
  "build_index xs = map_of (rev (zip xs [0..<length xs]))"

definition index :: "bool \<Rightarrow> bool \<Rightarrow> 'v genotypes \<Rightarrow> 'v genotypes" where
  "index smp var s =
     s\<lparr>samp_idx := (if smp \<and> samp_idx s = None then Some (build_index (samples s))
                    else samp_idx s),
       var_idx := (if var \<and> var_idx s = None then Some (build_index (map vid (variants s)))
                   else var_idx s)\<rparr>"

text \<open>\<^verbatim>\<open>data[idx, :]\<close> and \<^verbatim>\<open>data[:, idx]\<close> for a sequence of positions within range.\<close>

definition take_rows :: "nat list \<Rightarrow> ndarray \<Rightarrow> ndarray" where
  "take_rows idx d =
     d\<lparr>shape0 := length idx,
       cells := (case cells d of
                   U8 x \<Rightarrow> U8 (map ((!) x) idx)
                 | BOOL y \<Rightarrow> BOOL (map ((!) y) idx))\<rparr>"

definition take_columns :: "nat list \<Rightarrow> ndarray \<Rightarrow> ndarray" where
  "take_columns idx d =
     d\<lparr>shape1 := length idx,
       cells := (case cells d of
                   U8 x \<Rightarrow> U8 (map (\<lambda>row. map ((!) row) idx) x)
                 | BOOL y \<Rightarrow> BOOL (map (\<lambda>row. map ((!) row) idx) y))\<rparr>"

text \<open>
  \<^verbatim>\<open>Genotypes.subset\<close>. The result is the outcome, the instance \<^verbatim>\<open>self\<close> afterwards, the
  instance \<^verbatim>\<open>gts\<close> the method worked on (the new instance it returns, or \<^verbatim>\<open>self\<close> when
  \<^verbatim>\<open>inplace\<close>), and the messages. A position outside the array makes numpy raise
  \<^verbatim>\<open>IndexError\<close>. The dictionaries are those of \<^verbatim>\<open>self\<close> after \<^verbatim>\<open>self.index\<close>, the table
  indexed by the variant positions is \<^verbatim>\<open>self.variants\<close>.
\<close>

definition subset_samples ::
  "(string \<rightharpoonup> nat) \<Rightarrow> string list \<Rightarrow> 'v genotypes \<Rightarrow> 'v result" where
  "subset_samples sm req g =
     (let kept = filter (\<lambda>x. sm x \<noteq> None) req;
          out = (if length kept < length req
                 then [Warn_fewer_samples (length req - length kept) (length kept)] else []);
          idx = map (\<lambda>x. the (sm x)) kept;
          g1 = g\<lparr>samples := kept, samp_idx := None\<rparr>
      in if list_ex (\<lambda>i. shape0 (data g) \<le> i) idx then (Raised IndexError, g1, out)
         else (Returned, g1\<lparr>data := take_rows idx (data g)\<rparr>, out))"

definition subset_variants ::
  "(string \<rightharpoonup> nat) \<Rightarrow> string list \<Rightarrow> 'v genotypes \<Rightarrow> 'v result" where
  "subset_variants vm req g =
     (let idx = map (\<lambda>x. the (vm x)) (filter (\<lambda>x. vm x \<noteq> None) req);
          out = (if length idx < length req
                 then [Warn_fewer_variants (length req - length idx) (length idx)] else [])
      in if list_ex (\<lambda>j. length (variants g) \<le> j) idx then (Raised IndexError, g, out)
         else
           (let g1 = g\<lparr>variants := map ((!) (variants g)) idx, var_idx := None\<rparr> in
            if list_ex (\<lambda>j. shape1 (data g) \<le> j) idx then (Raised IndexError, g1, out)
            else (Returned, g1\<lparr>data := take_columns idx (data g)\<rparr>, out)))"

definition subset ::
  "string list option \<Rightarrow> string list option \<Rightarrow> bool \<Rightarrow> 'v genotypes \<Rightarrow>
   outcome \<times> 'v genotypes \<times> 'v genotypes \<times> msg list" where
  "subset smp var inplace s =
     (let self = index (smp \<noteq> None) (var \<noteq> None) s;
          gts = (if inplace then self
                 else self\<lparr>prephased := False, samp_idx := None, var_idx := None\<rparr>);
          r1 = (case smp of None \<Rightarrow> (Returned, gts, [])
                | Some req \<Rightarrow> subset_samples (the (samp_idx self)) req gts);
          r2 = (case var of None \<Rightarrow> r1
                | Some req \<Rightarrow> and_then r1 (subset_variants (the (var_idx self)) req))
      in case r2 of (oc, g, out) \<Rightarrow> (oc, if inplace then g else self, g, out))"

section \<open>The PVAR reader of GenotypesPLINK\<close>

text \<open>
  The PVAR file is read through \<^verbatim>\<open>csv.reader\<close>: a list of lines, each a list of fields.
  The conversions \<^verbatim>\<open>int(...)\<close> of Python and numpy's conversion of a string to
  \<^verbatim>\<open>uint32\<close> are library functions and are parameters (\<open>None\<close> when they raise
  \<^verbatim>\<open>ValueError\<close>). The region is taken as the source has it after \<^verbatim>\<open>re.split\<close> and the
  conversion of its bounds: the contig and the list of bounds.
\<close>

record conv =
  py_int :: "string \<Rightarrow> int option"
  np_uint32 :: "string \<Rightarrow> 32 word option"

definition startswith :: "string \<Rightarrow> string \<Rightarrow> bool" where
  "startswith p x = (take (length p) x = p)"

text \<open>\<^verbatim>\<open>GenotypesPLINK._check_region\<close>, called as \<^verbatim>\<open>_check_region(pos, *region)\<close>: more
  than two bounds are too many arguments.\<close>

definition check_region :: "string \<times> int \<Rightarrow> string \<times> int list \<Rightarrow> error + bool" where
  "check_region p region =
     (case region of (c, bounds) \<Rightarrow>
        (case bounds of
           [] \<Rightarrow> Inr (fst p = c \<and> 0 \<le> snd p)
         | [start] \<Rightarrow> Inr (fst p = c \<and> start \<le> snd p)
         | [start, stop] \<Rightarrow> Inr (fst p = c \<and> start \<le> snd p \<and> snd p \<le> stop)
         | _ \<Rightarrow> Inl TypeError))"

text \<open>\<^verbatim>\<open>GenotypesPLINK._variant_arr\<close>, with the default column positions its caller
  leaves it (CHROM 0, POS 1, ID 2, REF 3, ALT 4). The frequency is the constant 0.5.\<close>

definition variant_arr_plink :: "conv \<Rightarrow> string list \<Rightarrow> error + variant_refalt" where
  "variant_arr_plink cv rec =
     (if length rec < 5 then Inl IndexError
      else
        (case np_uint32 cv (rec ! 1) of
           None \<Rightarrow> Inl ValueError
         | Some p \<Rightarrow>
             Inr \<lparr>vid = take 50 (rec ! 2), chrom = take 10 (rec ! 0), pos = p, aaf = 1 / 2,
                  ref = take 100 (rec ! 3), alt = take 100 (rec ! 4)\<rparr>))"

text \<open>The search for the header line: the first line whose first field does not start
  with \<^verbatim>\<open>##\<close>, or the last line when every line does.\<close>

fun find_header :: "string list list \<Rightarrow> error + (string list \<times> string list list)" where
  "find_header [] = Inl UnboundLocalError"
| "find_header (line # rest) =
     (case line of
        [] \<Rightarrow> Inl IndexError
      | f # fs \<Rightarrow>
          if \<not> startswith ''##'' f then Inr (line, rest)
          else if rest = [] then Inr (line, [])
          else find_header rest)"

definition list_index :: "'a \<Rightarrow> 'a list \<Rightarrow> nat option" where
  "list_index x xs = (if x \<in> set xs then Some (length (takeWhile (\<lambda>y. y \<noteq> x) xs)) else None)"

text \<open>The columns \<^verbatim>\<open>cid\<close> of \<^verbatim>\<open>chrom\<close>, \<^verbatim>\<open>pos\<close> and \<^verbatim>\<open>id\<close> in the header.\<close>

definition header_columns :: "string list \<Rightarrow> error + (nat \<times> nat \<times> nat)" where
  "header_columns header =
     (if length header < 5 then Inl PvarFewColumns
      else if hd header = [] then Inl IndexError
      else if hd (hd header) \<noteq> CHR ''#'' then Inl PvarNoHeader
      else
        (let h = tl (hd header) # tl header in
         case list_index ''CHROM'' h of
           None \<Rightarrow> Inl ValueError
         | Some c \<Rightarrow>
             (case list_index ''POS'' h of
                None \<Rightarrow> Inl ValueError
              | Some p \<Rightarrow>
                  (case list_index ''ID'' h of
                     None \<Rightarrow> Inl ValueError
                   | Some i \<Rightarrow> Inr (c, p, i)))))"

text \<open>The test of one line against the region: \<open>Inr True\<close> when the line is skipped.\<close>

definition outside_region ::
  "conv \<Rightarrow> nat \<times> nat \<times> nat \<Rightarrow> (string \<times> int list) option \<Rightarrow> string list \<Rightarrow> error + bool" where
  "outside_region cv cid region rec =
     (case region of
        None \<Rightarrow> Inr False
      | Some r \<Rightarrow>
          (case cid of (c, p, i) \<Rightarrow>
             if length rec \<le> c \<or> length rec \<le> p then Inl IndexError
             else
               (case py_int cv (rec ! p) of
                  None \<Rightarrow> Inl ValueError
                | Some n \<Rightarrow>
                    (case check_region (rec ! c, n) r of
                       Inl e \<Rightarrow> Inl e
                     | Inr inside \<Rightarrow> Inr (\<not> inside)))))"

text \<open>
  The loop of \<^verbatim>\<open>GenotypesPLINK._iterate_variants\<close> over the lines after the header,
  numbered from \<open>ct\<close>. The source sets \<^verbatim>\<open>num_seen = 0\<close> before the loop and never changes
  it, so the argument \<open>num_seen\<close> is passed on as it is.
\<close>

fun iterate_lines ::
  "conv \<Rightarrow> nat \<times> nat \<times> nat \<Rightarrow> (string \<times> int list) option \<Rightarrow> string fset option \<Rightarrow>
   nat \<Rightarrow> nat \<Rightarrow> string list list \<Rightarrow> (nat \<times> variant_refalt) gen_run" where
  "iterate_lines cv cid region wanted num_seen ct [] = gen_stop 0 Returned"
| "iterate_lines cv cid region wanted num_seen ct (rec # rest) =
     (case outside_region cv cid region rec of
        Inl e \<Rightarrow> gen_stop 1 (Raised e)
      | Inr True \<Rightarrow> gen_skip (iterate_lines cv cid region wanted num_seen (Suc ct) rest)
      | Inr False \<Rightarrow>
          (case wanted of
             None \<Rightarrow>
               (case variant_arr_plink cv rec of
                  Inl e \<Rightarrow> gen_stop 1 (Raised e)
                | Inr row \<Rightarrow>
                    gen_yield (ct, row)
                      (iterate_lines cv cid region wanted num_seen (Suc ct) rest))
           | Some ids \<Rightarrow>
               if length rec \<le> snd (snd cid) then gen_stop 1 (Raised IndexError)
               else if rec ! snd (snd cid) |\<notin>| ids then
                 (if fcard ids \<le> num_seen then gen_stop 1 Returned
                  else gen_skip (iterate_lines cv cid region wanted num_seen (Suc ct) rest))
               else
                 (case variant_arr_plink cv rec of
                    Inl e \<Rightarrow> gen_stop 1 (Raised e)
                  | Inr row \<Rightarrow>
                      gen_yield (ct, row)
                        (iterate_lines cv cid region wanted num_seen (Suc ct) rest))))"

text \<open>\<^verbatim>\<open>GenotypesPLINK._iterate_variants\<close>: the lines read for the header are not
  counted in \<open>consumed\<close>.\<close>

definition iterate_variants ::
  "conv \<Rightarrow> string list list \<Rightarrow> (string \<times> int list) option \<Rightarrow> string fset option \<Rightarrow>
   (nat \<times> variant_refalt) gen_run" where
  "iterate_variants cv pvar region wanted =
     (case find_header pvar of
        Inl e \<Rightarrow> gen_stop 0 (Raised e)
      | Inr (header, lines) \<Rightarrow>
          (case header_columns header of
             Inl e \<Rightarrow> gen_stop 0 (Raised e)
           | Inr cid \<Rightarrow> iterate_lines cv cid region wanted 0 0 lines))"

text \<open>
  \<^verbatim>\<open>GenotypesPLINK.read_variants\<close>, as a function to the indices and the table it
  stores. Its loop asks the generator for one entry more than it keeps, so an exception of
  the generator reaches it only when fewer than \<open>max_variants + 1\<close> entries came before.
\<close>

definition read_variants ::
  "conv \<Rightarrow> string list list \<Rightarrow> (string \<times> int list) option \<Rightarrow> string fset option \<Rightarrow>
   int option \<Rightarrow> error + (nat list \<times> variant_refalt list)" where
  "read_variants cv pvar region wanted max_variants =
     (case (case wanted of None \<Rightarrow> max_variants | Some ids \<Rightarrow> Some (int (fcard ids))) of
        None \<Rightarrow> Inl ValueError
      | Some m \<Rightarrow>
          if m < 0 then Inl ValueError
          else
            (let run = iterate_variants cv pvar region wanted;
                 kept = read_loop (nat m) 0 (emitted run)
             in if nat m < length (emitted run) then Inr (map fst kept, map snd kept)
                else
                  (case stopped run of
                     Raised e \<Rightarrow> Inl e
                   | Returned \<Rightarrow> Inr (map fst kept, map snd kept))))"

section \<open>The vocabulary of the properties\<close>

text \<open>
  An index cache is in order when it is absent or is the dictionary that \<^verbatim>\<open>index\<close> would
  build from the current identifiers. An instance is consistent when its tensor agrees
  with its shape, axis 0 is as long as the sample list, axis 1 is as long as the variant
  table, and both caches are in order. \<^verbatim>\<open>read\<close> establishes this on a new instance and
  every stage and \<^verbatim>\<open>subset\<close> keep it (shown below).
\<close>

definition index_ok :: "(string \<rightharpoonup> nat) option \<Rightarrow> string list \<Rightarrow> bool" where
  "index_ok cache ids = (case cache of None \<Rightarrow> True | Some m \<Rightarrow> m = build_index ids)"

definition consistent :: "'v genotypes \<Rightarrow> bool" where
  "consistent s =
     (wf_ndarray (data s) \<and> shape0 (data s) = length (samples s) \<and>
      shape1 (data s) = length (variants s) \<and>
      index_ok (samp_idx s) (samples s) \<and> index_ok (var_idx s) (map vid (variants s)))"

definition aligned :: "'v genotypes \<Rightarrow> bool" where
  "aligned s = (shape0 (data s) = length (samples s) \<and> shape1 (data s) = length (variants s))"

text \<open>The pair (sample \<open>i\<close>, variant \<open>j\<close>) is missing when one of its first two channels
  holds 255; a row is missing something when one of its pairs is.\<close>

definition missing_at :: "ndarray \<Rightarrow> nat \<Rightarrow> nat \<Rightarrow> bool" where
  "missing_at d i j =
     (i < shape0 d \<and> j < shape1 d \<and>
      list_ex (\<lambda>k. counts d ! i ! j ! k = 255) [0..<min 2 (shape2 d)])"

definition row_missing :: "ndarray \<Rightarrow> nat \<Rightarrow> bool" where
  "row_missing d i = list_ex (\<lambda>j. missing_at d i j) [0..<shape1 d]"

text \<open>A tensor is binary when every element counts 0 or 1. A genotype is unphased and
  heterozygous when its two allele channels differ and its phase channel is 0.\<close>

definition binary :: "ndarray \<Rightarrow> bool" where
  "binary d = list_all (list_all (list_all (\<lambda>n. n \<le> 1))) (counts d)"

definition unphased_at :: "ndarray \<Rightarrow> nat \<Rightarrow> nat \<Rightarrow> bool" where
  "unphased_at d i j =
     (i < shape0 d \<and> j < shape1 d \<and>
      counts d ! i ! j ! 0 \<noteq> counts d ! i ! j ! 1 \<and> counts d ! i ! j ! 2 = 0)"

text \<open>
  For \<^verbatim>\<open>read\<close>: the records of the source that match the requested identifiers (all of
  them when no set is given), the bound of the bounded mode (the size of the set, else a
  non-negative \<^verbatim>\<open>max_variants\<close>), what the generator yields for a record, and the shape
  the decoder gives its records: one row per sample for at least one sample, each with the
  two alleles and the phase flag. (Without samples the decoder's table is an empty list,
  which becomes a one-dimensional array that the generator cannot slice; that file is not
  modelled.)
\<close>

definition matching :: "string fset option \<Rightarrow> vcf_variant list \<Rightarrow> vcf_variant list" where
  "matching wanted records =
     (case wanted of None \<Rightarrow> records | Some ids \<Rightarrow> filter (\<lambda>v. ID v |\<in>| ids) records)"

definition bound :: "string fset option \<Rightarrow> int option \<Rightarrow> nat option" where
  "bound wanted max_variants =
     (case wanted of
        Some ids \<Rightarrow> Some (fcard ids)
      | None \<Rightarrow>
          (case max_variants of
             None \<Rightarrow> None
           | Some m \<Rightarrow> if 0 \<le> m then Some (nat m) else None))"

definition as_record :: "bool \<Rightarrow> vcf_variant \<Rightarrow> 8 word list list \<times> variant" where
  "as_record pre v = (genotype_arr pre v, variant_arr v)"

definition well_shaped :: "nat \<Rightarrow> nat \<Rightarrow> vcf_variant list \<Rightarrow> bool" where
  "well_shaped n k records =
     (0 < n \<and>
      list_all (\<lambda>v. length (genotypes v) = n \<and> list_all (\<lambda>g. k \<le> length g) (genotypes v))
        records)"

text \<open>
  For \<^verbatim>\<open>subset\<close>: the requested identifiers that are present, in the requested order (all
  identifiers of the data when nothing is requested); the warning that counts the absent
  ones; and the positions in the data of the identifiers kept.
\<close>

definition present :: "string list \<Rightarrow> string list option \<Rightarrow> string list" where
  "present ids req =
     (case req of None \<Rightarrow> ids | Some wanted \<Rightarrow> filter (\<lambda>x. x \<in> set ids) wanted)"

definition fewer :: "(nat \<Rightarrow> nat \<Rightarrow> msg) \<Rightarrow> string list \<Rightarrow> string list option \<Rightarrow> msg list" where
  "fewer warn ids req =
     (case req of
        None \<Rightarrow> []
      | Some wanted \<Rightarrow>
          if length (present ids req) < length wanted
          then [warn (length wanted - length (present ids req)) (length (present ids req))]
          else [])"

definition positions :: "string list \<Rightarrow> string list option \<Rightarrow> nat list" where
  "positions ids req =
     (case req of
        None \<Rightarrow> [0..<length ids]
      | Some wanted \<Rightarrow> map (\<lambda>x. the (build_index ids x)) (present ids req))"

text \<open>For the proofs about \<^verbatim>\<open>np.nonzero\<close>: the sample-major order of coordinates, and the
  coordinates of the true entries with the rows numbered from \<open>k\<close>.\<close>

definition lex_less :: "nat \<times> nat \<Rightarrow> nat \<times> nat \<Rightarrow> bool" where
  "lex_less a b = (fst a < fst b \<or> (fst a = fst b \<and> snd a < snd b))"

definition nonzero_from :: "nat \<Rightarrow> bool list list \<Rightarrow> (nat \<times> nat) list" where
  "nonzero_from k m =
     concat (map (\<lambda>(i, row). map (Pair i) (filter (\<lambda>j. row ! j) [0..<length row]))
                 (enumerate k m))"

section \<open>Concrete instances and files\<close>

text \<open>Two samples and two variants, as \<^verbatim>\<open>read\<close> leaves them (\<^verbatim>\<open>uint8\<close>) and as
  \<^verbatim>\<open>check_biallelic\<close> leaves them (\<^verbatim>\<open>bool\<close>), and variations of them.\<close>

definition demo_u8 :: "unit genotypes" where
  "demo_u8 =
     \<lparr>data = \<lparr>shape0 = 2, shape1 = 2, shape2 = 3,
               cells = U8 [[[0, 1, 1], [1, 1, 0]], [[1, 0, 1], [0, 0, 0]]]\<rparr>,
      samples = [''s1'', ''s2''],
      variants = [\<lparr>vid = ''rs1'', chrom = ''1'', pos = 100, aaf = 1 / 4\<rparr>,
                  \<lparr>vid = ''rs2'', chrom = ''1'', pos = 200, aaf = 9 / 10\<rparr>],
      freq_name = Aaf, prephased = False, samp_idx = None, var_idx = None\<rparr>"

definition demo_bool :: "unit genotypes" where
  "demo_bool =
     demo_u8\<lparr>data := \<lparr>shape0 = 2, shape1 = 2, shape2 = 3,
               cells = BOOL [[[False, True, True], [True, True, False]],
                             [[True, False, True], [False, False, False]]]\<rparr>\<rparr>"

definition demo_missing :: "unit genotypes" where
  "demo_missing =
     demo_u8\<lparr>data := \<lparr>shape0 = 2, shape1 = 2, shape2 = 3,
               cells = U8 [[[0, 1, 1], [1, 1, 0]], [[0, 0, 1], [1, 255, 0]]]\<rparr>\<rparr>"

definition demo_discarded :: "unit genotypes" where
  "demo_discarded =
     demo_u8\<lparr>data := \<lparr>shape0 = 1, shape1 = 2, shape2 = 3,
               cells = U8 [[[0, 1, 1], [1, 1, 0]]]\<rparr>,
             samples := [''s1'']\<rparr>"

definition demo_unphased :: "unit genotypes" where
  "demo_unphased =
     demo_u8\<lparr>data := \<lparr>shape0 = 2, shape1 = 2, shape2 = 3,
               cells = BOOL [[[False, True, True], [True, True, False]],
                             [[True, False, True], [False, True, False]]]\<rparr>\<rparr>"

definition demo_phased_multi :: "unit genotypes" where
  "demo_phased_multi =
     \<lparr>data = \<lparr>shape0 = 1, shape1 = 1, shape2 = 3, cells = U8 [[[2, 0, 1]]]\<rparr>,
      samples = [''s1''],
      variants = [\<lparr>vid = ''rs1'', chrom = ''1'', pos = 100, aaf = 1 / 4\<rparr>],
      freq_name = Aaf, prephased = False, samp_idx = None, var_idx = None\<rparr>"

definition demo_subset :: "unit genotypes" where
  "demo_subset =
     demo_bool\<lparr>data := \<lparr>shape0 = 2, shape1 = 1, shape2 = 3,
                 cells = BOOL [[[False, False, False]], [[True, True, False]]]\<rparr>,
               samples := [''s2'', ''s1''],
               variants := [\<lparr>vid = ''rs2'', chrom = ''1'', pos = 200, aaf = 9 / 10\<rparr>]\<rparr>"

text \<open>
  A VCF with two phased samples and two variants. The frequencies are the ones the decoder
  derives from the genotypes of the record: \<open>rs1\<close> has the genotypes 0|0 and 0|1, one
  alternate allele of four, and \<open>rs9\<close> has 1|1 and 1|0, three of four. Then the instance
  \<^verbatim>\<open>read\<close> builds from the file, the one \<^verbatim>\<open>load\<close> returns for it, and the one
  \<^verbatim>\<open>to_MAC\<close> makes of the former.
\<close>

definition demo_vcf_major :: "vcf_variant list" where
  "demo_vcf_major =
     [\<lparr>ID = ''rs1'', CHROM = ''1'', POS = 100, AAF = 1 / 4, genotypes = [[0, 0, 1], [0, 1, 1]]\<rparr>,
      \<lparr>ID = ''rs9'', CHROM = ''1'', POS = 200, AAF = 3 / 4, genotypes = [[1, 1, 1], [1, 0, 1]]\<rparr>]"

definition demo_read_major :: "unit genotypes" where
  "demo_read_major =
     \<lparr>data = \<lparr>shape0 = 2, shape1 = 2, shape2 = 3,
               cells = U8 [[[0, 0, 1], [1, 1, 1]], [[0, 1, 1], [1, 0, 1]]]\<rparr>,
      samples = [''s1'', ''s2''],
      variants = [\<lparr>vid = ''rs1'', chrom = ''1'', pos = 100, aaf = 1 / 4\<rparr>,
                  \<lparr>vid = ''rs9'', chrom = ''1'', pos = 200, aaf = 3 / 4\<rparr>],
      freq_name = Aaf, prephased = False, samp_idx = None, var_idx = None\<rparr>"

definition demo_loaded :: "unit genotypes" where
  "demo_loaded =
     demo_read_major\<lparr>data := \<lparr>shape0 = 2, shape1 = 2, shape2 = 2,
                       cells = BOOL [[[False, False], [True, True]],
                                     [[False, True], [True, False]]]\<rparr>\<rparr>"

definition demo_read_major_complement :: "unit genotypes" where
  "demo_read_major_complement =
     \<lparr>data = \<lparr>shape0 = 2, shape1 = 2, shape2 = 3,
               cells = U8 [[[0, 0, 1], [254, 254, 1]], [[0, 1, 1], [254, 255, 1]]]\<rparr>,
      samples = [''s1'', ''s2''],
      variants = [\<lparr>vid = ''rs1'', chrom = ''1'', pos = 100, aaf = 1 / 4\<rparr>,
                  \<lparr>vid = ''rs9'', chrom = ''1'', pos = 200, aaf = 1 / 4\<rparr>],
      freq_name = Maf, prephased = False, samp_idx = None, var_idx = None\<rparr>"

text \<open>A VCF with one sample and a PVAR file, both with the variants \<open>a\<close>, \<open>b\<close>, \<open>c\<close>;
  conversions that know the three positions.\<close>

definition demo_vcf_abc :: "vcf_variant list" where
  "demo_vcf_abc =
     [\<lparr>ID = ''a'', CHROM = ''1'', POS = 10, AAF = 1 / 2, genotypes = [[0, 1, 1]]\<rparr>,
      \<lparr>ID = ''b'', CHROM = ''1'', POS = 20, AAF = 1, genotypes = [[1, 1, 1]]\<rparr>,
      \<lparr>ID = ''c'', CHROM = ''1'', POS = 30, AAF = 0, genotypes = [[0, 0, 1]]\<rparr>]"

definition demo_read :: "unit genotypes" where
  "demo_read =
     \<lparr>data = \<lparr>shape0 = 1, shape1 = 2, shape2 = 3, cells = U8 [[[0, 1, 1], [1, 1, 1]]]\<rparr>,
      samples = [''s1''],
      variants = [\<lparr>vid = ''a'', chrom = ''1'', pos = 10, aaf = 1 / 2\<rparr>,
                  \<lparr>vid = ''b'', chrom = ''1'', pos = 20, aaf = 1\<rparr>],
      freq_name = Aaf, prephased = False, samp_idx = None, var_idx = None\<rparr>"

definition demo_conv :: conv where
  "demo_conv =
     \<lparr>py_int = map_of [(''10'', 10), (''20'', 20), (''30'', 30)],
      np_uint32 = map_of [(''10'', 10), (''20'', 20), (''30'', 30)]\<rparr>"

definition demo_pvar :: "string list list" where
  "demo_pvar =
     [[''#CHROM'', ''POS'', ''ID'', ''REF'', ''ALT''],
      [''1'', ''10'', ''a'', ''A'', ''T''],
      [''1'', ''20'', ''b'', ''C'', ''G''],
      [''1'', ''30'', ''c'', ''G'', ''A'']]"

definition demo_plink_rows :: "variant_refalt list" where
  "demo_plink_rows =
     [\<lparr>vid = ''a'', chrom = ''1'', pos = 10, aaf = 1 / 2, ref = ''A'', alt = ''T''\<rparr>,
      \<lparr>vid = ''b'', chrom = ''1'', pos = 20, aaf = 1 / 2, ref = ''C'', alt = ''G''\<rparr>]"

definition demo_plink :: "unit variant_refalt_ext genotypes" where
  "demo_plink =
     \<lparr>data = \<lparr>shape0 = 1, shape1 = 2, shape2 = 2,
               cells = BOOL [[[True, True], [False, True]]]\<rparr>,
      samples = [''s1''], variants = demo_plink_rows,
      freq_name = Aaf, prephased = False, samp_idx = None, var_idx = None\<rparr>"

section \<open>Properties\<close>

subsection \<open>The loop of the bounded mode\<close>

lemma read_loop_take: "read_loop m n xs = take (m - n) xs"
proof (induction xs arbitrary: n)
  case Nil
  then show ?case by simp
next
  case (Cons x xs)
  show ?case
  proof (cases "m \<le> n")
    case True
    then show ?thesis by simp
  next
    case False
    then have "m - n = Suc (m - Suc n)" by simp
    then show ?thesis using False Cons.IH [of "Suc n"] by simp
  qed
qed

subsection \<open>The coordinates numpy reports\<close>

lemma nonzero_from_Nil: "nonzero_from k [] = []"
  by (simp add: nonzero_from_def)

lemma nonzero_from_Cons:
  "nonzero_from k (row # m) =
     map (Pair k) (filter (\<lambda>j. row ! j) [0..<length row]) @ nonzero_from (Suc k) m"
  by (simp add: nonzero_from_def)

lemma set_nonzero_from:
  "set (nonzero_from k m) = {(i, j). k \<le> i \<and> i - k < length m \<and> j < length (m ! (i - k)) \<and> m ! (i - k) ! j}"
proof (induction m arbitrary: k)
  case Nil
  then show ?case by (simp add: nonzero_from_Nil)
next
  case (Cons row m)
  show ?case
  proof (rule set_eqI)
    fix p :: "nat \<times> nat"
    obtain i j where p: "p = (i, j)" by (cases p)
    show "p \<in> set (nonzero_from k (row # m)) \<longleftrightarrow>
          p \<in> {(i, j). k \<le> i \<and> i - k < length (row # m) \<and> j < length ((row # m) ! (i - k)) \<and> (row # m) ! (i - k) ! j}"
    proof (cases "i = k")
      case True
      then show ?thesis by (auto simp: p nonzero_from_Cons Cons.IH)
    next
      case False
      then show ?thesis
        by (auto simp: p nonzero_from_Cons Cons.IH nth_Cons' Suc_diff_Suc less_Suc_eq_le
                 split: if_splits) 
    qed
  qed
qed

lemma sorted_nonzero_from: "sorted_wrt lex_less (nonzero_from k m)"
proof (induction m arbitrary: k)
  case Nil
  then show ?case by (simp add: nonzero_from_Nil)
next
  case (Cons row m)
  have a: "sorted_wrt lex_less (map (Pair k) (filter (\<lambda>j. row ! j) [0..<length row]))"
    by (simp add: sorted_wrt_map lex_less_def sorted_wrt_filter)
  have b: "\<forall>x\<in>set (map (Pair k) (filter (\<lambda>j. row ! j) [0..<length row])).
           \<forall>y\<in>set (nonzero_from (Suc k) m). lex_less x y"
    by (auto simp: set_nonzero_from lex_less_def)
  show ?case
    unfolding nonzero_from_Cons sorted_wrt_append using a b Cons.IH by blast
qed

lemma nonzero_eq: "nonzero m = nonzero_from 0 m"
  by (simp add: nonzero_def nonzero_from_def)

lemma set_nonzero:
  "set (nonzero m) = {(i, j). i < length m \<and> j < length (m ! i) \<and> m ! i ! j}"
  by (simp add: nonzero_eq set_nonzero_from)

lemma nonzero_head_least:
  assumes "nonzero m = (i, j) # rest" and "(i', j') \<in> set (nonzero m)"
  shows "i < i' \<or> (i = i' \<and> j \<le> j')"
proof -
  have "sorted_wrt lex_less ((i, j) # rest)"
    using sorted_nonzero_from [of 0 m] assms(1) by (simp add: nonzero_eq)
  then have "\<forall>y\<in>set rest. lex_less (i, j) y" by simp
  moreover have "(i', j') = (i, j) \<or> (i', j') \<in> set rest"
    using assms by auto
  ultimately show ?thesis by (auto simp: lex_less_def)
qed

subsection \<open>check_missing\<close>

lemma rect3_nth:
  "rect3 n p c xs \<Longrightarrow> i < n \<Longrightarrow> length (xs ! i) = p"
  "rect3 n p c xs \<Longrightarrow> i < n \<Longrightarrow> j < p \<Longrightarrow> length (xs ! i ! j) = c"
  by (auto simp: rect3_def list_all_length)

lemma rect3_length: "rect3 n p c xs \<Longrightarrow> length xs = n"
  by (simp add: rect3_def)

lemma list_ex_take_upt:
  "length cell = c \<Longrightarrow> list_ex P (take 2 cell) = list_ex (\<lambda>k. P (cell ! k)) [0..<min 2 c]"
proof -
  assume "length cell = c"
  then have "set (take 2 cell) = (!) cell ` {0..<min 2 c}"
    using nth_image [of "min 2 c" cell] by (simp add: min_def split: if_splits)
  then show ?thesis by (auto simp: list_ex_iff)
qed

lemma length_missing_mask: "wf_ndarray d \<Longrightarrow> length (missing_mask d) = shape0 d"
  by (auto simp: wf_ndarray_def missing_mask_def rect3_def split: cells.splits)

lemma length_missing_mask_row:
  "wf_ndarray d \<Longrightarrow> i < shape0 d \<Longrightarrow> length (missing_mask d ! i) = shape1 d"
  by (auto simp: wf_ndarray_def missing_mask_def rect3_length rect3_nth split: cells.splits)

lemma unat_eq_255: "(unat (v :: 8 word) = 255) = (v = 255)"
  by (simp add: word_unat_eq_iff)

lemma missing_mask_nth:
  assumes "wf_ndarray d" "i < shape0 d" "j < shape1 d"
  shows "missing_mask d ! i ! j = missing_at d i j"
proof (cases "cells d")
  case (U8 x)
  with assms have r: "rect3 (shape0 d) (shape1 d) (shape2 d) x"
    by (simp add: wf_ndarray_def)
  have l: "length x = shape0 d" "length (x ! i) = shape1 d" "length (x ! i ! j) = shape2 d"
    using r assms rect3_length rect3_nth by blast+
  have "missing_mask d ! i ! j = list_ex (\<lambda>k. x ! i ! j ! k = 255) [0..<min 2 (shape2 d)]"
    using assms l by (simp add: missing_mask_def U8 list_ex_take_upt [OF l(3)])
  also have "\<dots> = missing_at d i j"
    using assms l by (auto simp: missing_at_def counts_def U8 list_ex_iff unat_eq_255)
  finally show ?thesis .
next
  case (BOOL y)
  with assms have r: "rect3 (shape0 d) (shape1 d) (shape2 d) y"
    by (simp add: wf_ndarray_def)
  have l: "length y = shape0 d" "length (y ! i) = shape1 d" "length (y ! i ! j) = shape2 d"
    using r assms rect3_length rect3_nth by blast+
  show ?thesis
    using assms l
    by (simp add: missing_mask_def missing_at_def counts_def BOOL list_ex_iff)
qed

lemma set_nonzero_missing:
  assumes "wf_ndarray d"
  shows "set (nonzero (missing_mask d)) = {(i, j). missing_at d i j}"
proof -
  have "\<And>i j. (i < length (missing_mask d) \<and> j < length (missing_mask d ! i) \<and> missing_mask d ! i ! j)
          = missing_at d i j"
    using assms
    by (metis length_missing_mask length_missing_mask_row missing_mask_nth missing_at_def)
  then show ?thesis by (simp add: set_nonzero)
qed

lemma row_missing_iff: "row_missing d i = (\<exists>j. missing_at d i j)"
  by (auto simp: row_missing_def list_ex_iff missing_at_def)

lemma np_delete_map: "np_delete idx (map f xs) = map f (np_delete idx xs)"
  by (simp add: np_delete_def)

lemma np_delete_keep:
  assumes "length xs = n" "\<And>i. i < n \<Longrightarrow> (i \<in> set idx) = P i"
  shows "np_delete idx xs = map ((!) xs) (filter (\<lambda>i. \<not> P i) [0..<n])"
proof -
  have "filter (\<lambda>i. i \<notin> set idx) [0..<n] = filter (\<lambda>i. \<not> P i) [0..<n]"
    by (rule filter_cong) (auto simp: assms(2))
  then show ?thesis by (simp add: np_delete_def assms(1))
qed

lemma counts_delete_axis0:
  "counts (delete_axis0 idx d) = np_delete idx (counts d)"
  by (simp add: counts_def delete_axis0_def np_delete_map split: cells.splits)

lemma is_bool_delete_axis0: "is_bool (delete_axis0 idx d) = is_bool d"
  by (simp add: is_bool_def delete_axis0_def split: cells.splits)

lemma length_counts: "wf_ndarray d \<Longrightarrow> length (counts d) = shape0 d"
  by (auto simp: counts_def wf_ndarray_def rect3_def split: cells.splits)

lemma fst_nonzero_missing:
  assumes "wf_ndarray d"
  shows "(i \<in> set (map fst (nonzero (missing_mask d)))) = (i < shape0 d \<and> row_missing d i)"
proof -
  have "(i \<in> fst ` set (nonzero (missing_mask d))) = (\<exists>j. missing_at d i j)"
    unfolding set_nonzero_missing [OF assms] by force
  then show ?thesis
    by (auto simp: row_missing_iff missing_at_def)
qed

lemma check_missing_none:
  assumes "consistent s" "\<not> (\<exists>i j. missing_at (data s) i j)"
  shows "check_missing discard_also s =
           (Returned, s,
            if discard_also \<and> samples s = [] then [Warn_all_samples_discarded] else [])"
proof -
  have wf: "wf_ndarray (data s)" and n: "shape0 (data s) = length (samples s)"
    using assms(1) by (simp_all add: consistent_def)
  have "set (nonzero (missing_mask (data s))) = {}"
    using assms(2) by (simp add: set_nonzero_missing [OF wf])
  then have "nonzero (missing_mask (data s)) = []" by simp
  then show ?thesis by (simp add: check_missing_def n)
qed

lemma check_missing_raise:
  assumes "consistent s" "missing_at (data s) i j"
    and least: "\<And>i' j'. missing_at (data s) i' j' \<Longrightarrow> i < i' \<or> (i = i' \<and> j \<le> j')"
  shows "check_missing False s =
           (Raised (MissingGenotype (vid (variants s ! j)) (chrom (variants s ! j))
                      (pos (variants s ! j)) (samples s ! i)), s, [])"
proof -
  have wf: "wf_ndarray (data s)" and n: "shape0 (data s) = length (samples s)"
    and p: "shape1 (data s) = length (variants s)"
    using assms(1) by (simp_all add: consistent_def)
  have mem: "(i, j) \<in> set (nonzero (missing_mask (data s)))"
    using assms(2) by (simp add: set_nonzero_missing [OF wf])
  then obtain a b rest where nz: "nonzero (missing_mask (data s)) = (a, b) # rest"
    by (cases "nonzero (missing_mask (data s))") auto
  have ab: "missing_at (data s) a b"
    using set_nonzero_missing [OF wf] nz by (metis (mono_tags, lifting) case_prodD list.set_intros(1) mem_Collect_eq)
  have "a < i \<or> (a = i \<and> b \<le> j)"
    using nonzero_head_least [OF nz mem] .
  moreover have "i < a \<or> (i = a \<and> j \<le> b)"
    using least [OF ab] .
  ultimately have "a = i" "b = j" by auto
  moreover have "i < length (samples s)" "j < length (variants s)"
    using assms(2) n p by (simp_all add: missing_at_def)
  ultimately show ?thesis
    by (simp add: check_missing_def nz located_def)
qed

lemma check_missing_discard:
  assumes "consistent s" "\<exists>i j. missing_at (data s) i j"
  defines "keep \<equiv> filter (\<lambda>i. \<not> row_missing (data s) i) [0..<length (samples s)]"
  shows "\<exists>d n. check_missing True s =
           (Returned, s\<lparr>data := d, samples := map ((!) (samples s)) keep, samp_idx := None\<rparr>,
            Info_ignoring_missing n # (if keep = [] then [Warn_all_samples_discarded] else []))
         \<and> counts d = map ((!) (counts (data s))) keep \<and> is_bool d = is_bool (data s)
         \<and> shape0 d = length keep \<and> shape1 d = shape1 (data s) \<and> shape2 d = shape2 (data s)"
proof -
  have wf: "wf_ndarray (data s)" and n: "shape0 (data s) = length (samples s)"
    using assms(1) by (simp_all add: consistent_def)
  obtain ij rest where nz: "nonzero (missing_mask (data s)) = ij # rest"
    using assms(2) set_nonzero_missing [OF wf]
    by (cases "nonzero (missing_mask (data s))") auto
  define samp where "samp = fst ij # map fst rest"
  have samp: "\<And>i. i < length (samples s) \<Longrightarrow> (i \<in> set samp) = row_missing (data s) i"
    using fst_nonzero_missing [OF wf] n by (simp add: samp_def nz)
  have inrange: "\<not> list_ex (\<lambda>i. length (samples s) \<le> i) samp"
  proof -
    have "\<And>i. i \<in> set samp \<Longrightarrow> i < length (samples s)"
      using fst_nonzero_missing [OF wf] n by (simp add: samp_def nz)
    then show ?thesis unfolding list_ex_iff by (meson not_le)
  qed
  have k1: "np_delete samp (samples s) = map ((!) (samples s)) keep"
    unfolding keep_def by (rule np_delete_keep [OF refl samp])
  have k2: "np_delete samp (counts (data s)) = map ((!) (counts (data s))) keep"
    unfolding keep_def using samp by (intro np_delete_keep) (simp_all add: length_counts [OF wf] n)
  have k3: "length (np_delete samp [0..<length (samples s)]) = length keep"
    unfolding keep_def using samp
    by (subst np_delete_keep [where n = "length (samples s)" and P = "row_missing (data s)"]) simp_all
  have k4: "shape0 (delete_axis0 samp (data s)) = length keep"
    by (simp add: delete_axis0_def n k3)
  have run: "check_missing True s =
      (Returned, s\<lparr>data := delete_axis0 samp (data s), samples := np_delete samp (samples s),
                     samp_idx := None\<rparr>,
       Info_ignoring_missing (length samp) #
       (if shape0 (delete_axis0 samp (data s)) = 0 then [Warn_all_samples_discarded] else []))"
    using inrange by (simp add: check_missing_def nz Let_def samp_def)
  show ?thesis
    apply (rule exI [of _ "delete_axis0 samp (data s)"])
    apply (rule exI [of _ "length samp"])
    unfolding run k1 k4
    using k2 by (simp add: counts_delete_axis0 is_bool_delete_axis0) (simp add: delete_axis0_def)
qed

subsection \<open>check_biallelic\<close>

lemma counts_bool:
  assumes "is_bool d"
  shows "\<forall>row\<in>set (counts d). \<forall>cell\<in>set row. \<forall>n\<in>set cell. n \<in> {0, 1}"
  using assms by (auto simp: is_bool_def counts_def split: cells.splits)

lemma is_bool_astype: "is_bool (astype_bool d)"
  by (simp add: is_bool_def astype_bool_def split: cells.splits)

lemma check_biallelic_returns_bool:
  assumes "check_biallelic discard_also s = (Returned, s', out)"
  shows "is_bool (data s')"
  using assms
  by (auto simp: check_biallelic_def Let_def is_bool_astype split: if_splits list.splits)

text \<open>
  Claim C3. Whenever \<^verbatim>\<open>check_biallelic\<close> returns without raising, in default or in
  discard mode, the tensor it leaves is boolean, so every element (of the allele channels
  and of the phase channel) counts 0 or 1; and a second call, in either mode, returns with
  the whole instance unchanged (tensor, variant table, sample list and all other fields)
  and logs exactly the one warning that the genotypes are already biallelic.
\<close>

theorem check_biallelic_narrows_once:
  assumes "check_biallelic discard_also s = (Returned, s', out)"
  shows "is_bool (data s') \<and>
         (\<forall>row\<in>set (counts (data s')). \<forall>cell\<in>set row. \<forall>n\<in>set cell. n \<in> {0, 1}) \<and>
         check_biallelic again s' = (Returned, s', [Warn_already_biallelic])"
proof -
  have b: "is_bool (data s')"
    using assms by (rule check_biallelic_returns_bool)
  moreover have "check_biallelic again s' = (Returned, s', [Warn_already_biallelic])"
    using b by (simp add: check_biallelic_def)
  ultimately show ?thesis
    using counts_bool [OF b] by blast
qed

lemma demo_biallelic: "check_biallelic False demo_u8 = (Returned, demo_bool, [])"
  by (simp add: check_biallelic_def demo_u8_def demo_bool_def is_bool_def
      multiallelic_mask_def nonzero_def astype_bool_def upt_conv_Cons)

theorem check_biallelic_narrows_once_witness:
  "check_biallelic False demo_u8 = (Returned, demo_bool, []) \<and>
   is_bool (data demo_bool) \<and>
   check_biallelic True demo_bool = (Returned, demo_bool, [Warn_already_biallelic])"
  using check_biallelic_narrows_once [OF demo_biallelic, of True] demo_biallelic
  by simp

text \<open>
  Claim C5. On a consistent instance, \<^verbatim>\<open>check_missing\<close> behaves as follows. A pair
  (sample \<open>i\<close>, variant \<open>j\<close>) is missing when one of its first two channels holds 255.
  Without discard, if \<open>(i, j)\<close> is the first missing pair in sample-major order, the call
  raises the error that names the id, chromosome and position of variant \<open>j\<close> and the name of
  sample \<open>i\<close>, and the instance is unchanged. With discard, if some pair is missing, the
  call returns; the sample list and the tensor keep exactly the rows without a missing
  value, in order; the sample index is absent; the other fields are unchanged; and the
  warning that all samples were discarded is logged exactly when no row remains. When no
  pair is missing the call returns with the instance unchanged.
\<close>

theorem check_missing_raises_first_or_discards:
  assumes "consistent s"
  shows
    "(missing_at (data s) i j \<and>
      (\<forall>i' j'. missing_at (data s) i' j' \<longrightarrow> i < i' \<or> (i = i' \<and> j \<le> j')) \<longrightarrow>
        check_missing False s =
          (Raised (MissingGenotype (vid (variants s ! j)) (chrom (variants s ! j))
                     (pos (variants s ! j)) (samples s ! i)), s, [])) \<and>
     ((\<exists>i j. missing_at (data s) i j) \<longrightarrow>
        (\<exists>d n. check_missing True s =
           (Returned,
            s\<lparr>data := d,
              samples := map ((!) (samples s))
                           (filter (\<lambda>i. \<not> row_missing (data s) i) [0..<length (samples s)]),
              samp_idx := None\<rparr>,
            Info_ignoring_missing n #
            (if filter (\<lambda>i. \<not> row_missing (data s) i) [0..<length (samples s)] = []
             then [Warn_all_samples_discarded] else [])) \<and>
           counts d = map ((!) (counts (data s)))
                        (filter (\<lambda>i. \<not> row_missing (data s) i) [0..<length (samples s)]) \<and>
           is_bool d = is_bool (data s) \<and>
           shape0 d = length (filter (\<lambda>i. \<not> row_missing (data s) i) [0..<length (samples s)]) \<and>
           shape1 d = shape1 (data s) \<and> shape2 d = shape2 (data s))) \<and>
     (\<not> (\<exists>i j. missing_at (data s) i j) \<longrightarrow>
        check_missing discard_also s =
          (Returned, s,
           if discard_also \<and> samples s = [] then [Warn_all_samples_discarded] else []))"
proof (intro conjI impI)
  assume a: "missing_at (data s) i j \<and>
      (\<forall>i' j'. missing_at (data s) i' j' \<longrightarrow> i < i' \<or> (i = i' \<and> j \<le> j'))"
  then show "check_missing False s =
          (Raised (MissingGenotype (vid (variants s ! j)) (chrom (variants s ! j))
                     (pos (variants s ! j)) (samples s ! i)), s, [])"
    using check_missing_raise [OF assms, of i j] by blast
next
  assume "\<exists>i j. missing_at (data s) i j"
  then show "\<exists>d n. check_missing True s =
           (Returned,
            s\<lparr>data := d,
              samples := map ((!) (samples s))
                           (filter (\<lambda>i. \<not> row_missing (data s) i) [0..<length (samples s)]),
              samp_idx := None\<rparr>,
            Info_ignoring_missing n #
            (if filter (\<lambda>i. \<not> row_missing (data s) i) [0..<length (samples s)] = []
             then [Warn_all_samples_discarded] else [])) \<and>
           counts d = map ((!) (counts (data s)))
                        (filter (\<lambda>i. \<not> row_missing (data s) i) [0..<length (samples s)]) \<and>
           is_bool d = is_bool (data s) \<and>
           shape0 d = length (filter (\<lambda>i. \<not> row_missing (data s) i) [0..<length (samples s)]) \<and>
           shape1 d = shape1 (data s) \<and> shape2 d = shape2 (data s)"
    using check_missing_discard [OF assms] by blast
next
  assume "\<not> (\<exists>i j. missing_at (data s) i j)"
  then show "check_missing discard_also s =
          (Returned, s,
           if discard_also \<and> samples s = [] then [Warn_all_samples_discarded] else [])"
    using check_missing_none [OF assms] by blast
qed

lemma consistent_demo_missing: "consistent demo_missing"
  by (simp add: consistent_def demo_missing_def demo_u8_def wf_ndarray_def rect3_def index_ok_def)

lemma demo_missing_at: "missing_at (data demo_missing) i j = (i = 1 \<and> j = 1)"
proof -
  have "i < 2 \<Longrightarrow> i = 0 \<or> i = 1" "j < 2 \<Longrightarrow> j = 0 \<or> j = 1" by auto
  then show ?thesis
    by (auto simp: missing_at_def demo_missing_def demo_u8_def counts_def upt_conv_Cons)
qed

theorem check_missing_raises_first_or_discards_witness:
  "consistent demo_missing \<and>
   check_missing False demo_missing =
     (Raised (MissingGenotype ''rs2'' ''1'' 200 ''s2''), demo_missing, []) \<and>
   (\<exists>d n. check_missing True demo_missing =
      (Returned, demo_missing\<lparr>data := d, samples := [''s1''], samp_idx := None\<rparr>,
       [Info_ignoring_missing n]) \<and> counts d = [[[0, 1, 1], [1, 1, 0]]])"
proof -
  have r: "row_missing (data demo_missing) i = (i = 1 \<and> True)" for i
    by (auto simp: row_missing_iff demo_missing_at)
  have f: "filter (\<lambda>i. \<not> row_missing (data demo_missing) i) [0..<length (samples demo_missing)] = [0]"
  proof -
    have "length (samples demo_missing) = 2"
      by (simp add: demo_missing_def demo_u8_def)
    then show ?thesis by (simp add: r upt_conv_Cons)
  qed
  show ?thesis
    using check_missing_raises_first_or_discards [OF consistent_demo_missing, of 1 1]
    unfolding f
    by (simp add: demo_missing_at consistent_demo_missing)
       (auto simp: demo_missing_def demo_u8_def counts_def)
qed

subsection \<open>check_phase\<close>

lemma nonzero_first:
  assumes s: "set (nonzero m) = {(i, j). P i j}" and p: "P i j"
    and least: "\<And>i' j'. P i' j' \<Longrightarrow> i < i' \<or> (i = i' \<and> j \<le> j')"
  shows "\<exists>rest. nonzero m = (i, j) # rest"
proof -
  have mem: "(i, j) \<in> set (nonzero m)" using s p by simp
  then obtain a b rest where nz: "nonzero m = (a, b) # rest"
    by (cases "nonzero m") auto
  have "(a, b) \<in> set (nonzero m)" by (simp add: nz)
  then have ab: "P a b" using s by simp
  have "a < i \<or> (a = i \<and> b \<le> j)"
    using nonzero_head_least [OF nz mem] .
  moreover have "i < a \<or> (i = a \<and> j \<le> b)"
    using least [OF ab] .
  ultimately have "a = i" "b = j" by auto
  then show ?thesis using nz by simp
qed

lemma u8_binary_cases: "unat (a :: 8 word) \<le> 1 \<Longrightarrow> a = 0 \<or> a = 1"
proof -
  assume "unat a \<le> 1"
  then have "unat a = 0 \<or> unat a = 1" by arith
  then show ?thesis by (simp add: word_unat_eq_iff)
qed

lemma u8_unphased:
  assumes "unat (a :: 8 word) \<le> 1" "unat b \<le> 1" "unat p \<le> 1"
  shows "(((a XOR b) AND NOT p) \<noteq> 0) = (unat a \<noteq> unat b \<and> unat p = 0)"
proof -
  have "a = 0 \<or> a = 1" "b = 0 \<or> b = 1" "p = 0 \<or> p = 1"
    using assms u8_binary_cases by blast+
  then show ?thesis by auto
qed

lemma length_unphased_mask: "wf_ndarray d \<Longrightarrow> length (unphased_mask d) = shape0 d"
  by (auto simp: wf_ndarray_def unphased_mask_def rect3_def split: cells.splits)

lemma length_unphased_mask_row:
  "wf_ndarray d \<Longrightarrow> i < shape0 d \<Longrightarrow> length (unphased_mask d ! i) = shape1 d"
  by (auto simp: wf_ndarray_def unphased_mask_def rect3_length rect3_nth split: cells.splits)

lemma binary_nth:
  assumes "binary d" "wf_ndarray d" "i < shape0 d" "j < shape1 d" "k < shape2 d"
  shows "counts d ! i ! j ! k \<le> 1"
proof -
  have "length (counts d) = shape0 d" using assms(2) by (rule length_counts)
  moreover have "length (counts d ! i) = shape1 d" "length (counts d ! i ! j) = shape2 d"
    using assms(2-4)
    by (auto simp: counts_def wf_ndarray_def rect3_length rect3_nth split: cells.splits)
  ultimately show ?thesis
    using assms by (simp add: binary_def list_all_length)
qed

lemma unphased_mask_nth:
  assumes wf: "wf_ndarray d" and ij: "i < shape0 d" "j < shape1 d"
    and c: "shape2 d = 3" and b: "binary d"
  shows "unphased_mask d ! i ! j = unphased_at d i j"
proof (cases "cells d")
  case (U8 x)
  with wf have r: "rect3 (shape0 d) (shape1 d) (shape2 d) x"
    by (simp add: wf_ndarray_def)
  have l: "length x = shape0 d" "length (x ! i) = shape1 d" "length (x ! i ! j) = 3"
    using r ij c rect3_length rect3_nth by metis+
  have n: "counts d ! i ! j ! k = unat (x ! i ! j ! k)" if "k < 3" for k
    using that l ij by (simp add: counts_def U8)
  have "unat (x ! i ! j ! 0) \<le> 1" "unat (x ! i ! j ! 1) \<le> 1" "unat (x ! i ! j ! 2) \<le> 1"
    using binary_nth [OF b wf ij] c n by (metis numeral_3_eq_3 zero_less_Suc, 
        metis One_nat_def lessI less_SucI numeral_3_eq_3, metis lessI numeral_2_eq_2 numeral_3_eq_3)
  then have "(((x ! i ! j ! 0 XOR x ! i ! j ! 1) AND NOT (x ! i ! j ! 2)) \<noteq> 0) =
        (unat (x ! i ! j ! 0) \<noteq> unat (x ! i ! j ! 1) \<and> unat (x ! i ! j ! 2) = 0)"
    by (rule u8_unphased)
  then show ?thesis
    using l ij n [of 0] n [of 1] n [of 2]
    by (simp add: unphased_mask_def unphased_at_def U8)
next
  case (BOOL y)
  with wf have r: "rect3 (shape0 d) (shape1 d) (shape2 d) y"
    by (simp add: wf_ndarray_def)
  have l: "length y = shape0 d" "length (y ! i) = shape1 d" "length (y ! i ! j) = 3"
    using r ij c rect3_length rect3_nth by metis+
  show ?thesis
    using l ij by (auto simp: unphased_mask_def unphased_at_def BOOL counts_def)
qed

lemma set_nonzero_unphased:
  assumes "wf_ndarray d" "shape2 d = 3" "binary d"
  shows "set (nonzero (unphased_mask d)) = {(i, j). unphased_at d i j}"
proof -
  have "\<And>i j. (i < length (unphased_mask d) \<and> j < length (unphased_mask d ! i) \<and>
                unphased_mask d ! i ! j) = unphased_at d i j"
    using assms
    by (metis length_unphased_mask length_unphased_mask_row unphased_mask_nth unphased_at_def)
  then show ?thesis by (simp add: set_nonzero)
qed

lemma counts_take_channels: "counts (take_channels k d) = map (map (take k)) (counts d)"
  by (simp add: counts_def take_channels_def take_map split: cells.splits)

lemma is_bool_take_channels: "is_bool (take_channels k d) = is_bool d"
  by (simp add: is_bool_def take_channels_def split: cells.splits)

lemma check_phase_guard:
  "prephased s \<or> shape2 (data s) < 3 \<Longrightarrow>
     check_phase s = (Returned, s, [Warn_phase_already_removed])"
  by (auto simp: check_phase_def)

lemma check_phase_raise:
  assumes "consistent s" "\<not> prephased s" "shape2 (data s) = 3" "binary (data s)"
    and "unphased_at (data s) i j"
    and "\<And>i' j'. unphased_at (data s) i' j' \<Longrightarrow> i < i' \<or> (i = i' \<and> j \<le> j')"
  shows "check_phase s =
           (Raised (UnphasedVariant (vid (variants s ! j)) (chrom (variants s ! j))
                      (pos (variants s ! j)) (samples s ! i)), s, [])"
proof -
  have wf: "wf_ndarray (data s)" and n: "shape0 (data s) = length (samples s)"
    and p: "shape1 (data s) = length (variants s)"
    using assms(1) by (simp_all add: consistent_def)
  obtain rest where nz: "nonzero (unphased_mask (data s)) = (i, j) # rest"
    using nonzero_first [OF set_nonzero_unphased [OF wf assms(3,4)], of i j] assms(5,6)
    by blast
  have "i < length (samples s)" "j < length (variants s)"
    using assms(5) n p by (simp_all add: unphased_at_def)
  then show ?thesis
    using assms(2,3) by (simp add: check_phase_def nz located_def)
qed

lemma check_phase_pass:
  assumes "consistent s" "\<not> prephased s" "shape2 (data s) = 3" "binary (data s)"
    and "\<not> (\<exists>i j. unphased_at (data s) i j)"
  shows "check_phase s = (Returned, s\<lparr>data := take_channels 2 (data s)\<rparr>, [])"
proof -
  have wf: "wf_ndarray (data s)" using assms(1) by (simp add: consistent_def)
  have "set (nonzero (unphased_mask (data s))) = {}"
    using assms(5) by (simp add: set_nonzero_unphased [OF wf assms(3,4)])
  then have "nonzero (unphased_mask (data s)) = []" by simp
  then show ?thesis using assms(2,3) by (simp add: check_phase_def)
qed

lemma check_phase_raises_iff:
  assumes "consistent s" "\<not> prephased s" "shape2 (data s) = 3" "binary (data s)"
  shows "(\<exists>e. fst (check_phase s) = Raised e) = (\<exists>i j. unphased_at (data s) i j)"
proof -
  have wf: "wf_ndarray (data s)" using assms(1) by (simp add: consistent_def)
  have "(\<exists>e. fst (check_phase s) = Raised e) = (nonzero (unphased_mask (data s)) \<noteq> [])"
    using assms(2,3) by (auto simp: check_phase_def split: list.splits)
  also have "\<dots> = (set (nonzero (unphased_mask (data s))) \<noteq> {})" by simp
  also have "\<dots> = (\<exists>i j. unphased_at (data s) i j)"
    unfolding set_nonzero_unphased [OF wf assms(3,4)] by auto
  finally show ?thesis .
qed

text \<open>
  Claim C2, amended. On a pre-phased instance, or a tensor with fewer than three channels,
  \<^verbatim>\<open>check_phase\<close> returns with every field unchanged (and logs a warning). On a
  consistent instance that is not pre-phased and whose three-channel tensor holds only the
  values 0 and 1 (a boolean tensor, or a \<^verbatim>\<open>uint8\<close> tensor without larger values), it
  raises exactly when some genotype has different allele channels and a phase channel of 0;
  the error names the first such pair in sample-major order and the instance is unchanged;
  when it does not raise, the tensor keeps its first two channels, element type and other
  axes, and nothing else changes.
\<close>

theorem check_phase_on_binary_tensor:
  "(prephased s \<or> shape2 (data s) < 3 \<longrightarrow>
      check_phase s = (Returned, s, [Warn_phase_already_removed])) \<and>
   (consistent s \<and> \<not> prephased s \<and> shape2 (data s) = 3 \<and> binary (data s) \<longrightarrow>
      ((\<exists>e. fst (check_phase s) = Raised e) = (\<exists>i j. unphased_at (data s) i j)) \<and>
      (unphased_at (data s) i j \<and>
       (\<forall>i' j'. unphased_at (data s) i' j' \<longrightarrow> i < i' \<or> (i = i' \<and> j \<le> j')) \<longrightarrow>
         check_phase s =
           (Raised (UnphasedVariant (vid (variants s ! j)) (chrom (variants s ! j))
                      (pos (variants s ! j)) (samples s ! i)), s, [])) \<and>
      (\<not> (\<exists>i j. unphased_at (data s) i j) \<longrightarrow>
         (\<exists>d. check_phase s = (Returned, s\<lparr>data := d\<rparr>, []) \<and>
              shape0 d = shape0 (data s) \<and> shape1 d = shape1 (data s) \<and> shape2 d = 2 \<and>
              is_bool d = is_bool (data s) \<and>
              counts d = map (map (take 2)) (counts (data s)))))"
proof (intro conjI impI)
  assume "prephased s \<or> shape2 (data s) < 3"
  then show "check_phase s = (Returned, s, [Warn_phase_already_removed])"
    by (rule check_phase_guard)
next
  assume h: "consistent s \<and> \<not> prephased s \<and> shape2 (data s) = 3 \<and> binary (data s)"
  then show "(\<exists>e. fst (check_phase s) = Raised e) = (\<exists>i j. unphased_at (data s) i j)"
    using check_phase_raises_iff by blast
next
  assume h: "consistent s \<and> \<not> prephased s \<and> shape2 (data s) = 3 \<and> binary (data s)"
    and u: "unphased_at (data s) i j \<and>
       (\<forall>i' j'. unphased_at (data s) i' j' \<longrightarrow> i < i' \<or> (i = i' \<and> j \<le> j'))"
  show "check_phase s =
           (Raised (UnphasedVariant (vid (variants s ! j)) (chrom (variants s ! j))
                      (pos (variants s ! j)) (samples s ! i)), s, [])"
    using check_phase_raise [of s i j] h u by blast
next
  assume h: "consistent s \<and> \<not> prephased s \<and> shape2 (data s) = 3 \<and> binary (data s)"
    and u: "\<not> (\<exists>i j. unphased_at (data s) i j)"
  have "check_phase s = (Returned, s\<lparr>data := take_channels 2 (data s)\<rparr>, [])"
    using check_phase_pass h u by blast
  moreover have "shape2 (take_channels 2 (data s)) = 2"
    using h by (simp add: take_channels_def)
  ultimately show "\<exists>d. check_phase s = (Returned, s\<lparr>data := d\<rparr>, []) \<and>
              shape0 d = shape0 (data s) \<and> shape1 d = shape1 (data s) \<and> shape2 d = 2 \<and>
              is_bool d = is_bool (data s) \<and>
              counts d = map (map (take 2)) (counts (data s))"
    by (intro exI [of _ "take_channels 2 (data s)"])
       (simp add: counts_take_channels is_bool_take_channels, simp add: take_channels_def)
qed

lemma consistent_demo_unphased: "consistent demo_unphased"
  by (simp add: consistent_def demo_unphased_def demo_u8_def wf_ndarray_def rect3_def index_ok_def)

lemma binary_demo_unphased: "binary (data demo_unphased)"
  by (simp add: binary_def demo_unphased_def demo_u8_def counts_def)

lemma demo_unphased_at: "unphased_at (data demo_unphased) i j = (i = 1 \<and> j = 1)"
proof -
  have "i < 2 \<Longrightarrow> i = 0 \<or> i = 1" "j < 2 \<Longrightarrow> j = 0 \<or> j = 1" by auto
  then show ?thesis
    by (auto simp: unphased_at_def demo_unphased_def demo_u8_def counts_def)
qed

theorem check_phase_on_binary_tensor_witness:
  "consistent demo_unphased \<and> \<not> prephased demo_unphased \<and>
   shape2 (data demo_unphased) = 3 \<and> binary (data demo_unphased) \<and>
   unphased_at (data demo_unphased) 1 1 \<and>
   check_phase demo_unphased =
     (Raised (UnphasedVariant ''rs2'' ''1'' 200 ''s2''), demo_unphased, [])"
proof -
  have a: "\<not> prephased demo_unphased" "shape2 (data demo_unphased) = 3"
    by (simp_all add: demo_unphased_def demo_u8_def)
  have b: "vid (variants demo_unphased ! Suc 0) = ''rs2''"
    "chrom (variants demo_unphased ! Suc 0) = ''1''"
    "pos (variants demo_unphased ! Suc 0) = 200" "samples demo_unphased ! Suc 0 = ''s2''"
    by (simp_all add: demo_unphased_def demo_u8_def)
  show ?thesis
    using check_phase_on_binary_tensor [of demo_unphased 1 1]
    by (simp add: a b consistent_demo_unphased binary_demo_unphased demo_unphased_at)
qed

text \<open>
  The claim as stated fails on a \<^verbatim>\<open>uint8\<close> tensor with a value above 1: the genotype
  (2, 0) with phase flag 1 is phased, and no genotype is heterozygous with a false phase
  flag, yet \<^verbatim>\<open>(2 ^ 0) & ~1\<close> is 2 and the stage raises.
\<close>

theorem check_phase_multiallelic_counterexample:
  "consistent demo_phased_multi \<and> \<not> prephased demo_phased_multi \<and>
   shape2 (data demo_phased_multi) = 3 \<and>
   counts (data demo_phased_multi) = [[[2, 0, 1]]] \<and>
   (\<forall>i j. \<not> unphased_at (data demo_phased_multi) i j) \<and>
   check_phase demo_phased_multi =
     (Raised (UnphasedVariant ''rs1'' ''1'' 100 ''s1''), demo_phased_multi, [])"
  by (auto simp: consistent_def demo_phased_multi_def wf_ndarray_def rect3_def index_ok_def
      counts_def unphased_at_def check_phase_def unphased_mask_def nonzero_def located_def
      upt_conv_Cons)

subsection \<open>to_MAC\<close>

lemma unat_not_u8: "unat (NOT (w :: 8 word)) = 255 - unat w"
proof -
  have "NOT w = 255 - w" by (simp add: not_eq_complement)
  moreover have "w \<le> 255"
  proof -
    have "unat w < 2 ^ 8" using unsigned_less [of w] by simp
    then show ?thesis by (simp add: word_le_nat_alt)
  qed
  ultimately show ?thesis
    by (simp add: unat_sub)
qed

lemma flip_cell_nth:
  "k < length cell \<Longrightarrow>
     (map f (take 2 cell) @ drop 2 cell) ! k = (if k < 2 then f (cell ! k) else cell ! k)"
proof (cases "k < 2")
  case True
  assume "k < length cell"
  with True show ?thesis by (simp add: nth_append)
next
  case False
  assume "k < length cell"
  moreover from False have "Suc (Suc (k - 2)) = k" by simp
  ultimately show ?thesis using False by (simp add: nth_append min_def)
qed

lemma flip2_nth:
  "length need = length row \<Longrightarrow> j < length row \<Longrightarrow>
     flip2 f need row ! j =
       (if need ! j then map f (take 2 (row ! j)) @ drop 2 (row ! j) else row ! j)"
  by (simp add: flip2_def)

lemma length_flip2: "length need = length row \<Longrightarrow> length (flip2 f need row) = length row"
  by (simp add: flip2_def)

lemma rect3_flip2:
  assumes "rect3 n p c x" "length need = p"
  shows "rect3 n p c (map (flip2 f need) x)"
  using assms
  by (auto simp: rect3_def list_all_length length_flip2 flip2_nth)

lemma wf_invert_columns:
  "wf_ndarray d \<Longrightarrow> length need = shape1 d \<Longrightarrow> wf_ndarray (invert_columns need d)"
  by (auto simp: wf_ndarray_def invert_columns_def rect3_flip2 split: cells.splits)

lemma counts_invert_columns:
  assumes wf: "wf_ndarray d" and n: "length need = shape1 d"
    and ijk: "i < shape0 d" "j < shape1 d" "k < shape2 d"
  shows "counts (invert_columns need d) ! i ! j ! k =
           (if need ! j \<and> k < 2 then (if is_bool d then 1 else 255) - counts d ! i ! j ! k
            else counts d ! i ! j ! k)"
proof (cases "cells d")
  case (U8 x)
  with wf have r: "rect3 (shape0 d) (shape1 d) (shape2 d) x"
    by (simp add: wf_ndarray_def)
  have l: "length x = shape0 d" "length (x ! i) = shape1 d" "length (x ! i ! j) = shape2 d"
    using r ijk rect3_length rect3_nth by blast+
  show ?thesis
    using l ijk n
    by (simp add: counts_def invert_columns_def U8 is_bool_def flip2_nth length_flip2
          flip_cell_nth unat_not_u8 del: map_append map_map)
next
  case (BOOL y)
  with wf have r: "rect3 (shape0 d) (shape1 d) (shape2 d) y"
    by (simp add: wf_ndarray_def)
  have l: "length y = shape0 d" "length (y ! i) = shape1 d" "length (y ! i ! j) = shape2 d"
    using r ijk rect3_length rect3_nth by blast+
  show ?thesis
    using l ijk n
    by (simp add: counts_def invert_columns_def BOOL is_bool_def flip2_nth length_flip2
          flip_cell_nth del: map_append map_map)
qed

text \<open>
  Claim C4, amended. On an instance labelled \<^verbatim>\<open>maf\<close>, \<^verbatim>\<open>to_MAC\<close> returns with
  nothing changed and logs one warning. On a consistent instance labelled \<^verbatim>\<open>aaf\<close> whose
  tensor is boolean, as \<^verbatim>\<open>check_biallelic\<close> leaves it, \<^verbatim>\<open>to_MAC\<close> returns, logs
  nothing, relabels the column \<^verbatim>\<open>maf\<close>, replaces each frequency \<open>f\<close> above one half by
  \<open>1 - f\<close> and leaves the other frequencies alone; the tensor keeps its shape and stays
  boolean, presence and absence are exchanged in exactly the first two channels of the
  variants whose frequency exceeded one half, and every other element is unchanged.
\<close>

theorem to_MAC_flips_major_alternates:
  "(freq_name s = Maf \<longrightarrow> to_MAC s = (Returned, s, [Warn_already_minor])) \<and>
   (freq_name s = Aaf \<and> consistent s \<and> is_bool (data s) \<longrightarrow>
      (\<exists>d. to_MAC s =
              (Returned,
               s\<lparr>data := d,
                 variants := map (\<lambda>v. if 1 / 2 < aaf v then v\<lparr>aaf := 1 - aaf v\<rparr> else v)
                               (variants s),
                 freq_name := Maf\<rparr>,
               []) \<and>
            wf_ndarray d \<and> is_bool d \<and>
            shape0 d = shape0 (data s) \<and> shape1 d = shape1 (data s) \<and>
            shape2 d = shape2 (data s) \<and>
            (\<forall>i j k. i < shape0 d \<and> j < shape1 d \<and> k < shape2 d \<longrightarrow>
               counts d ! i ! j ! k =
                 (if 1 / 2 < aaf (variants s ! j) \<and> k < 2
                  then 1 - counts (data s) ! i ! j ! k
                  else counts (data s) ! i ! j ! k))))"
proof (intro conjI impI)
  assume "freq_name s = Maf"
  then show "to_MAC s = (Returned, s, [Warn_already_minor])"
    by (simp add: to_MAC_def)
next
  assume h: "freq_name s = Aaf \<and> consistent s \<and> is_bool (data s)"
  define need where "need = map (\<lambda>v. 1 / 2 < aaf v) (variants s)"
  have wf: "wf_ndarray (data s)" and p: "shape1 (data s) = length (variants s)"
    using h by (simp_all add: consistent_def)
  have bl: "is_bool (data s)" using h by simp
  have n: "length need = shape1 (data s)" by (simp add: need_def p)
  have run: "to_MAC s =
      (Returned,
       s\<lparr>data := invert_columns need (data s),
         variants := map (\<lambda>v. if 1 / 2 < aaf v then v\<lparr>aaf := 1 - aaf v\<rparr> else v) (variants s),
         freq_name := Maf\<rparr>, [])"
    using h p by (simp add: to_MAC_def need_def)
  have sh: "shape0 (invert_columns need (data s)) = shape0 (data s)"
    "shape1 (invert_columns need (data s)) = shape1 (data s)"
    "shape2 (invert_columns need (data s)) = shape2 (data s)"
    "is_bool (invert_columns need (data s))"
    using bl by (simp_all add: invert_columns_def is_bool_def split: cells.splits)
  have cell: "counts (invert_columns need (data s)) ! i ! j ! k =
                 (if 1 / 2 < aaf (variants s ! j) \<and> k < 2
                  then 1 - counts (data s) ! i ! j ! k
                  else counts (data s) ! i ! j ! k)"
    if "i < shape0 (data s)" "j < shape1 (data s)" "k < shape2 (data s)" for i j k
    using counts_invert_columns [OF wf n that] that(2) p bl by (simp add: need_def)
  show "\<exists>d. to_MAC s =
              (Returned,
               s\<lparr>data := d,
                 variants := map (\<lambda>v. if 1 / 2 < aaf v then v\<lparr>aaf := 1 - aaf v\<rparr> else v)
                               (variants s),
                 freq_name := Maf\<rparr>,
               []) \<and>
            wf_ndarray d \<and> is_bool d \<and>
            shape0 d = shape0 (data s) \<and> shape1 d = shape1 (data s) \<and>
            shape2 d = shape2 (data s) \<and>
            (\<forall>i j k. i < shape0 d \<and> j < shape1 d \<and> k < shape2 d \<longrightarrow>
               counts d ! i ! j ! k =
                 (if 1 / 2 < aaf (variants s ! j) \<and> k < 2
                  then 1 - counts (data s) ! i ! j ! k
                  else counts (data s) ! i ! j ! k))"
    apply (rule exI [of _ "invert_columns need (data s)"])
    using run sh cell wf_invert_columns [OF wf n] by simp
qed

lemma consistent_demo_bool: "consistent demo_bool"
  by (simp add: consistent_def demo_bool_def demo_u8_def wf_ndarray_def rect3_def index_ok_def)

lemma consistent_demo_loaded: "consistent demo_loaded"
  by (simp add: consistent_def demo_loaded_def demo_read_major_def wf_ndarray_def rect3_def
      index_ok_def)

text \<open>
  The theorem at the instance \<^verbatim>\<open>load\<close> returns for the file with the variants \<open>rs1\<close>
  (frequency 1/4) and \<open>rs9\<close> (frequency 3/4): the alleles 1|1 and 1|0 of \<open>rs9\<close> become 0|0
  and 0|1 and its frequency 1/4, while \<open>rs1\<close> keeps its alleles 0|0 and 0|1.
\<close>

theorem to_MAC_flips_major_alternates_witness:
  "freq_name demo_loaded = Aaf \<and> consistent demo_loaded \<and> is_bool (data demo_loaded) \<and>
   map aaf (variants demo_loaded) = [1 / 4, 3 / 4] \<and>
   counts (data demo_loaded) = [[[0, 0], [1, 1]], [[0, 1], [1, 0]]] \<and>
   (\<exists>d vs. to_MAC demo_loaded =
             (Returned, demo_loaded\<lparr>data := d, variants := vs, freq_name := Maf\<rparr>, []) \<and>
           map aaf vs = [1 / 4, 1 / 4] \<and>
           counts d ! 0 ! 1 ! 0 = 0 \<and> counts d ! 0 ! 1 ! 1 = 0 \<and>
           counts d ! 1 ! 1 ! 0 = 0 \<and> counts d ! 1 ! 1 ! 1 = 1 \<and>
           counts d ! 0 ! 0 ! 0 = 0 \<and> counts d ! 0 ! 0 ! 1 = 0 \<and>
           counts d ! 1 ! 0 ! 0 = 0 \<and> counts d ! 1 ! 0 ! 1 = 1)"
proof -
  have a: "freq_name demo_loaded = Aaf" "is_bool (data demo_loaded)"
    "shape0 (data demo_loaded) = 2" "shape1 (data demo_loaded) = 2"
    "shape2 (data demo_loaded) = 2"
    "map aaf (variants demo_loaded) = [1 / 4, 3 / 4]"
    "aaf (variants demo_loaded ! 0) = 1 / 4" "aaf (variants demo_loaded ! Suc 0) = 3 / 4"
    by (simp_all add: demo_loaded_def demo_read_major_def is_bool_def)
  have c: "counts (data demo_loaded) = [[[0, 0], [1, 1]], [[0, 1], [1, 0]]]"
    by (simp add: demo_loaded_def demo_read_major_def counts_def)
  obtain d where run: "to_MAC demo_loaded =
      (Returned,
       demo_loaded\<lparr>data := d,
         variants := map (\<lambda>v. if 1 / 2 < aaf v then v\<lparr>aaf := 1 - aaf v\<rparr> else v)
                       (variants demo_loaded),
         freq_name := Maf\<rparr>, [])"
    and sh: "shape0 d = 2" "shape1 d = 2" "shape2 d = 2"
    and cell: "\<And>i j k. i < shape0 d \<and> j < shape1 d \<and> k < shape2 d \<Longrightarrow>
               counts d ! i ! j ! k =
                 (if 1 / 2 < aaf (variants demo_loaded ! j) \<and> k < 2
                  then 1 - counts (data demo_loaded) ! i ! j ! k
                  else counts (data demo_loaded) ! i ! j ! k)"
    using to_MAC_flips_major_alternates [of demo_loaded] a(1,2,3,4,5) consistent_demo_loaded
    by auto
  define vs where
    "vs = map (\<lambda>v. if 1 / 2 < aaf v then v\<lparr>aaf := 1 - aaf v\<rparr> else v) (variants demo_loaded)"
  have k: "counts d ! 0 ! 1 ! 0 = 0 \<and> counts d ! 0 ! 1 ! 1 = 0 \<and>
           counts d ! 1 ! 1 ! 0 = 0 \<and> counts d ! 1 ! 1 ! 1 = 1 \<and>
           counts d ! 0 ! 0 ! 0 = 0 \<and> counts d ! 0 ! 0 ! 1 = 0 \<and>
           counts d ! 1 ! 0 ! 0 = 0 \<and> counts d ! 1 ! 0 ! 1 = 1"
    using cell [of 0 1 0] cell [of 0 1 1] cell [of 1 1 0] cell [of 1 1 1]
      cell [of 0 0 0] cell [of 0 0 1] cell [of 1 0 0] cell [of 1 0 1]
    by (simp add: sh a c)
  have m: "map aaf vs = [1 / 4, 1 / 4]"
    by (simp add: vs_def demo_loaded_def demo_read_major_def)
  have r: "to_MAC demo_loaded =
             (Returned, demo_loaded\<lparr>data := d, variants := vs, freq_name := Maf\<rparr>, [])"
    using run by (simp add: vs_def)
  have e: "\<exists>d vs. to_MAC demo_loaded =
             (Returned, demo_loaded\<lparr>data := d, variants := vs, freq_name := Maf\<rparr>, []) \<and>
           map aaf vs = [1 / 4, 1 / 4] \<and>
           counts d ! 0 ! 1 ! 0 = 0 \<and> counts d ! 0 ! 1 ! 1 = 0 \<and>
           counts d ! 1 ! 1 ! 0 = 0 \<and> counts d ! 1 ! 1 ! 1 = 1 \<and>
           counts d ! 0 ! 0 ! 0 = 0 \<and> counts d ! 0 ! 0 ! 1 = 0 \<and>
           counts d ! 1 ! 0 ! 0 = 0 \<and> counts d ! 1 ! 0 ! 1 = 1"
    using r m k by (intro exI [of _ d] exI [of _ vs]) simp
  show ?thesis
    using a(1) consistent_demo_loaded a(2) a(6) c e by (intro conjI)
qed

text \<open>
  Claim C4 as stated fails on a \<^verbatim>\<open>uint8\<close> tensor, one that \<^verbatim>\<open>check_biallelic\<close> has not
  narrowed. \<^verbatim>\<open>read\<close> builds such an instance from the file above, labelled \<^verbatim>\<open>aaf\<close>;
  \<^verbatim>\<open>to_MAC\<close> applied to it turns the alleles 1|1 and 1|0 of \<open>rs9\<close> (frequency 3/4) into
  (254, 254) and (254, 255), which is no exchange of presence and absence. The amended
  claim therefore speaks of boolean tensors only.
\<close>

theorem to_MAC_uint8_counterexample:
  "read [''s1'', ''s2''] demo_vcf_major None None new_genotypes =
     (Returned, demo_read_major,
      [Warn_no_max_variants, Info_loading 2, Info_copying 2, Info_transposing [2, 2, 3]]) \<and>
   freq_name demo_read_major = Aaf \<and> consistent demo_read_major \<and>
   \<not> is_bool (data demo_read_major) \<and>
   map aaf (variants demo_read_major) = [1 / 4, 3 / 4] \<and>
   counts (data demo_read_major) = [[[0, 0, 1], [1, 1, 1]], [[0, 1, 1], [1, 0, 1]]] \<and>
   to_MAC demo_read_major = (Returned, demo_read_major_complement, []) \<and>
   counts (data demo_read_major_complement) =
     [[[0, 0, 1], [254, 254, 1]], [[0, 1, 1], [254, 255, 1]]]"
  by (simp add: read_def new_genotypes_def demo_vcf_major_def gen_yield_def gen_stop_def
      gen_skip_def genotype_arr_def variant_arr_def assemble_def transpose_rows_def
      to_MAC_def demo_read_major_def demo_read_major_complement_def invert_columns_def
      flip2_def is_bool_def consistent_def wf_ndarray_def rect3_def index_ok_def counts_def
      upt_conv_Cons)

subsection \<open>load and the two record iterations\<close>

text \<open>
  Claim C1 says that \<^verbatim>\<open>load\<close> takes the instance through all four stages, so that the
  frequency column is labelled \<^verbatim>\<open>maf\<close> and no frequency exceeds one half. The source
  runs three stages only: on the file with two samples whose variant \<open>rs9\<close> has the
  genotypes 1|1 and 1|0, hence the alternate-allele frequency 3/4, \<^verbatim>\<open>load\<close> returns an
  instance whose column is still labelled \<^verbatim>\<open>aaf\<close> and whose stored frequency for \<open>rs9\<close>
  is 3/4, the alleles unflipped.
\<close>

theorem load_skips_to_MAC:
  "load [''s1'', ''s2''] demo_vcf_major None =
     (Returned, demo_loaded,
      [Warn_no_max_variants, Info_loading 2, Info_copying 2, Info_transposing [2, 2, 3]]) \<and>
   freq_name demo_loaded = Aaf \<and> map aaf (variants demo_loaded) = [1 / 4, 3 / 4] \<and>
   counts (data demo_loaded) = [[[0, 0], [1, 1]], [[0, 1], [1, 0]]]"
  by (simp add: load_def read_def and_then_def new_genotypes_def demo_vcf_major_def
      demo_loaded_def demo_read_major_def counts_def gen_yield_def gen_stop_def gen_skip_def genotype_arr_def variant_arr_def
      assemble_def transpose_rows_def check_missing_def missing_mask_def nonzero_def
      check_biallelic_def is_bool_def multiallelic_mask_def astype_bool_def
      check_phase_def unphased_mask_def take_channels_def upt_conv_Cons)

lemma fcard_single: "fcard {|x|} = 1"
  by (simp add: fcard_finsert_if)

text \<open>
  Claim C7 says that both record iterations stop as soon as as many matching records as
  the identifier set has members have been emitted. For the set \<open>{a}\<close> and a source with
  the records \<open>a\<close>, \<open>b\<close>, \<open>c\<close>, the PVAR iteration emits \<open>a\<close> and reads all three lines,
  while the VCF iteration emits \<open>a\<close> and stops at the second record.
\<close>

theorem iterate_variants_never_exits_early:
  "iterate_variants demo_conv demo_pvar None (Some {|''a''|}) =
     \<lparr>emitted = [(0, \<lparr>vid = ''a'', chrom = ''1'', pos = 10, aaf = 1 / 2,
                       ref = ''A'', alt = ''T''\<rparr>)],
      consumed = 3, stopped = Returned\<rparr> \<and>
   map (vid \<circ> snd) (emitted (iterate_vcf False (Some {|''a''|}) 0 demo_vcf_abc)) = [''a''] \<and>
   consumed (iterate_vcf False (Some {|''a''|}) 0 demo_vcf_abc) = 2"
  by (simp add: iterate_variants_def demo_pvar_def demo_conv_def demo_vcf_abc_def startswith_def
      header_columns_def list_index_def outside_region_def variant_arr_plink_def
      gen_yield_def gen_stop_def gen_skip_def genotype_arr_def variant_arr_def fcard_single)

subsection \<open>read in bounded mode\<close>

lemma emitted_simps:
  "emitted (gen_stop n oc) = []"
  "emitted (gen_skip r) = emitted r"
  "emitted (gen_yield x r) = x # emitted r"
  by (simp_all add: gen_stop_def gen_skip_def gen_yield_def)

lemma consumed_simps:
  "consumed (gen_stop n oc) = n"
  "consumed (gen_skip r) = Suc (consumed r)"
  "consumed (gen_yield x r) = Suc (consumed r)"
  by (simp_all add: gen_stop_def gen_skip_def gen_yield_def)

lemma stopped_simps:
  "stopped (gen_stop n oc) = oc"
  "stopped (gen_skip r) = stopped r"
  "stopped (gen_yield x r) = stopped r"
  by (simp_all add: gen_stop_def gen_skip_def gen_yield_def)

lemma iterate_vcf_all:
  "emitted (iterate_vcf pre None n records) = map (as_record pre) records"
  by (induction records arbitrary: n) (simp_all add: emitted_simps as_record_def)

lemma iterate_vcf_prefix:
  "take (fcard ids - n) (emitted (iterate_vcf pre (Some ids) n records)) =
   take (fcard ids - n) (map (as_record pre) (filter (\<lambda>v. ID v |\<in>| ids) records))"
proof (induction records arbitrary: n)
  case Nil
  then show ?case by (simp add: emitted_simps)
next
  case (Cons v vs)
  show ?case
  proof (cases "ID v |\<in>| ids")
    case True
    show ?thesis
    proof (cases "fcard ids - n")
      case 0
      then show ?thesis by simp
    next
      case (Suc k)
      then have "k = fcard ids - Suc n" by simp
      then show ?thesis
        using True Suc Cons.IH [of "Suc n"] by (simp add: emitted_simps as_record_def)
    qed
  next
    case False
    then show ?thesis
      using Cons.IH [of n] by (simp add: emitted_simps)
  qed
qed

lemma iterate_vcf_only_wanted:
  "set (map (vid \<circ> snd) (emitted (iterate_vcf pre (Some ids) n records)))
     \<subseteq> (\<lambda>v. take 50 (ID v)) ` {v \<in> set records. ID v |\<in>| ids}"
  by (induction records arbitrary: n) (auto simp: emitted_simps variant_arr_def)

lemma iterate_vcf_take:
  assumes "bound wanted max_variants = Some b"
  shows "take b (emitted (iterate_vcf pre wanted 0 records)) =
         map (as_record pre) (take b (matching wanted records))"
proof (cases wanted)
  case None
  then show ?thesis by (simp add: iterate_vcf_all matching_def take_map)
next
  case (Some ids)
  then have "b = fcard ids" using assms by (simp add: bound_def)
  then show ?thesis
    using iterate_vcf_prefix [of ids 0 pre records] Some by (simp add: matching_def take_map)
qed

lemma length_transpose_rows: "length (transpose_rows n xs) = n"
  by (simp add: transpose_rows_def)

lemma transpose_rows_nth:
  "i < n \<Longrightarrow> j < length xs \<Longrightarrow> transpose_rows n xs ! i ! j = xs ! j ! i"
  by (simp add: transpose_rows_def)

lemma transpose_rows_row_length:
  "i < n \<Longrightarrow> length (transpose_rows n xs ! i) = length xs"
  by (simp add: transpose_rows_def)

lemma rect3_transpose_rows:
  assumes "list_all (\<lambda>x. length x = n \<and> list_all (\<lambda>cell. length cell = c) x) xs"
  shows "rect3 n (length xs) c (transpose_rows n xs)"
  using assms
  by (auto simp: rect3_def list_all_length transpose_rows_def)

lemma genotype_arr_shape:
  assumes "length (genotypes v) = n" "list_all (\<lambda>g. 2 + (if pre then 0 else 1) \<le> length g) (genotypes v)"
  shows "length (genotype_arr pre v) = n \<and>
         list_all (\<lambda>cell. length cell = 2 + (if pre then 0 else 1)) (genotype_arr pre v)"
  using assms by (auto simp: genotype_arr_def list_all_length min_def)

lemma read_bounded_run:
  assumes "bound wanted max_variants = Some b"
  shows "\<exists>out. read smp records wanted max_variants s =
           (Returned,
            s\<lparr>samples := smp,
              variants := map variant_arr (take b (matching wanted records)),
              data := \<lparr>shape0 = length smp, shape1 = length (take b (matching wanted records)),
                       shape2 = 2 + (if prephased s then 0 else 1),
                       cells = U8 (transpose_rows (length smp)
                                 (map (genotype_arr (prephased s))
                                    (take b (matching wanted records))))\<rparr>\<rparr>, out)"
proof -
  have k: "take b (emitted (iterate_vcf (prephased s) wanted 0 records)) =
           map (as_record (prephased s)) (take b (matching wanted records))"
    using assms by (rule iterate_vcf_take)
  have f: "map fst (map (as_record (prephased s)) xs) = map (genotype_arr (prephased s)) xs"
    "map snd (map (as_record (prephased s)) xs) = map variant_arr xs" for xs
    by (simp_all add: as_record_def comp_def)
  have kl: "min (length (emitted (iterate_vcf (prephased s) wanted 0 records))) b =
            min (length (matching wanted records)) b"
    using arg_cong [OF k, of length] by simp
  have g: "fst \<circ> as_record p = genotype_arr p" "snd \<circ> as_record p = variant_arr" for p
    by (simp_all add: as_record_def fun_eq_iff)
  show ?thesis
  proof (cases wanted)
    case None
    then obtain m where m: "max_variants = Some m" "0 \<le> m" "b = nat m"
      using assms by (auto simp: bound_def split: option.splits if_splits)
    show ?thesis
      using k kl m(2) by (simp add: read_def None m(1,3) Let_def assemble_def f g read_loop_take)
  next
    case (Some ids)
    then have b: "b = fcard ids" using assms by (simp add: bound_def)
    show ?thesis
      using k kl by (simp add: read_def Some b Let_def assemble_def f g read_loop_take)
  qed
qed

text \<open>
  Claim C8. In bounded mode (\<open>bound\<close> is the size of the identifier set when one is
  given, else the supplied non-negative \<^verbatim>\<open>max_variants\<close>), on records of the decoder's
  shape, \<^verbatim>\<open>read\<close> returns and stores exactly the first \<open>min bound (number of matching
  records)\<close> matching records in source order: the variant table holds their metadata rows,
  the tensor has one column for each of them (column \<open>j\<close> holds the genotypes of the
  \<open>j\<close>-th matching record, one row per sample), and nothing else is stored.
\<close>

theorem read_keeps_first_matching_records:
  assumes "bound wanted max_variants = Some b"
    and "well_shaped (length smp) (2 + (if prephased s then 0 else 1)) records"
  shows "\<exists>s' out. read smp records wanted max_variants s = (Returned, s', out) \<and>
           samples s' = smp \<and>
           variants s' = map variant_arr (take b (matching wanted records)) \<and>
           length (variants s') = min b (length (matching wanted records)) \<and>
           wf_ndarray (data s') \<and> \<not> is_bool (data s') \<and>
           shape0 (data s') = length smp \<and>
           shape1 (data s') = min b (length (matching wanted records)) \<and>
           shape2 (data s') = 2 + (if prephased s then 0 else 1) \<and>
           (\<forall>i j. i < length smp \<and> j < min b (length (matching wanted records)) \<longrightarrow>
              counts (data s') ! i ! j =
                map unat (genotype_arr (prephased s) (matching wanted records ! j) ! i))"
proof -
  define kept where "kept = take b (matching wanted records)"
  define k where "k = 2 + (if prephased s then 0 else 1 :: nat)"
  define d where "d = \<lparr>shape0 = length smp, shape1 = length kept, shape2 = k,
                       cells = U8 (transpose_rows (length smp)
                                 (map (genotype_arr (prephased s)) kept))\<rparr>"
  obtain out where run: "read smp records wanted max_variants s =
      (Returned, s\<lparr>samples := smp, variants := map variant_arr kept, data := d\<rparr>, out)"
    using read_bounded_run [OF assms(1)] unfolding kept_def d_def k_def by blast
  have sub: "set kept \<subseteq> set records"
    unfolding kept_def matching_def
    by (auto split: option.splits dest: in_set_takeD)
  have shapes: "list_all (\<lambda>x. length x = length smp \<and> list_all (\<lambda>cell. length cell = k) x)
                  (map (genotype_arr (prephased s)) kept)"
    using assms(2) sub genotype_arr_shape [of _ "length smp" "prephased s"]
    unfolding well_shaped_def k_def list_all_iff by fastforce
  have wf: "wf_ndarray d"
    using rect3_transpose_rows [OF shapes] by (simp add: wf_ndarray_def d_def)
  have len: "length kept = min b (length (matching wanted records))"
    by (simp add: kept_def min.commute)
  have cell: "counts d ! i ! j = map unat (genotype_arr (prephased s) (matching wanted records ! j) ! i)"
    if "i < length smp" "j < min b (length (matching wanted records))" for i j
  proof -
    have j: "j < length kept" using that(2) len by simp
    have "kept ! j = matching wanted records ! j"
      using that(2) by (simp add: kept_def)
    then show ?thesis
      using that(1) j
      by (simp add: counts_def d_def length_transpose_rows transpose_rows_row_length
            transpose_rows_nth)
  qed
  show ?thesis
    apply (rule exI [of _ "s\<lparr>samples := smp, variants := map variant_arr kept, data := d\<rparr>"])
    apply (rule exI [of _ out])
    using run wf len cell
    by (simp add: kept_def [symmetric]) (simp add: d_def is_bool_def k_def)
qed

lemma demo_read_run:
  "read [''s1''] demo_vcf_abc None (Some 2) new_genotypes =
     (Returned, demo_read, [Info_loading 1, Info_transposing [2, 1, 3]])"
  by (simp add: read_def new_genotypes_def demo_vcf_abc_def demo_read_def emitted_simps
      genotype_arr_def variant_arr_def assemble_def transpose_rows_def upt_conv_Cons)

theorem read_keeps_first_matching_records_witness:
  "bound None (Some 2) = Some 2 \<and>
   well_shaped (length [''s1'']) (2 + (if prephased new_genotypes then 0 else 1)) demo_vcf_abc \<and>
   read [''s1''] demo_vcf_abc None (Some 2) new_genotypes =
     (Returned, demo_read, [Info_loading 1, Info_transposing [2, 1, 3]]) \<and>
   variants demo_read = map variant_arr (take 2 demo_vcf_abc) \<and>
   length demo_vcf_abc = 3 \<and> shape1 (data demo_read) = 2"
proof -
  have b: "bound None (Some 2) = Some 2" by (simp add: bound_def)
  have w: "well_shaped (length [''s1'']) (2 + (if prephased new_genotypes then 0 else 1))
             demo_vcf_abc"
    by (simp add: well_shaped_def demo_vcf_abc_def new_genotypes_def)
  have m: "matching None demo_vcf_abc = demo_vcf_abc" by (simp add: matching_def)
  have "variants demo_read = map variant_arr (take 2 demo_vcf_abc)"
    using read_keeps_first_matching_records [OF b w] by (simp add: demo_read_run m)
  then show ?thesis
    using b w demo_read_run by (simp add: demo_vcf_abc_def demo_read_def)
qed

subsection \<open>What load and the PVAR loop do on every input\<close>

lemma stage_keeps_label:
  "check_missing d s = (oc, s', out) \<Longrightarrow> freq_name s' = freq_name s"
  "check_biallelic d s = (oc, s', out) \<Longrightarrow> freq_name s' = freq_name s"
  "check_phase s = (oc, s', out) \<Longrightarrow> freq_name s' = freq_name s"
  by (auto simp: check_missing_def check_biallelic_def check_phase_def Let_def
      split: list.splits if_splits)

lemma read_keeps_label:
  "read smp records wanted mv s = (oc, s', out) \<Longrightarrow> freq_name s' = freq_name s"
  by (auto simp: read_def Let_def split: option.splits if_splits)

lemma and_then_keeps_label:
  assumes "and_then r f = (oc, s', out)" "freq_name (fst (snd r)) = l"
    and "\<And>s oc s' out. f s = (oc, s', out) \<Longrightarrow> freq_name s' = freq_name s"
  shows "freq_name s' = l"
proof (cases r)
  case (fields oc0 s0 out0)
  show ?thesis
  proof (cases oc0)
    case Returned
    obtain oc1 s1 out1 where f: "f s0 = (oc1, s1, out1)" by (cases "f s0") auto
    then have "s' = s1" using assms(1) fields Returned by (simp add: and_then_def)
    then show ?thesis using assms(2,3) f fields by auto
  next
    case (Raised e)
    then show ?thesis using assms(1,2) fields by (simp add: and_then_def)
  qed
qed

lemma load_keeps_label:
  assumes "load smp records wanted = (oc, s, out)"
  shows "freq_name s = Aaf"
proof -
  have r: "freq_name (fst (snd (read smp records wanted None new_genotypes))) = Aaf"
    using read_keeps_label [of smp records wanted None new_genotypes]
    by (cases "read smp records wanted None new_genotypes") (simp add: new_genotypes_def)
  have m: "freq_name (fst (snd (and_then (read smp records wanted None new_genotypes)
             (check_missing False)))) = Aaf"
    using and_then_keeps_label [OF _ r, of "check_missing False"] stage_keeps_label(1)
    by (metis prod.collapse)
  have b: "freq_name (fst (snd (and_then (and_then (read smp records wanted None new_genotypes)
             (check_missing False)) (check_biallelic False)))) = Aaf"
    using and_then_keeps_label [OF _ m, of "check_biallelic False"] stage_keeps_label(2)
    by (metis prod.collapse)
  show ?thesis
    using and_then_keeps_label [OF assms [unfolded load_def] b] stage_keeps_label(3)
    by blast
qed

lemma iterate_lines_reads_every_line:
  assumes "ids \<noteq> {||}"
    and "stopped (iterate_lines cv cid region (Some ids) 0 ct lines) = Returned"
  shows "consumed (iterate_lines cv cid region (Some ids) 0 ct lines) = length lines"
  using assms(2)
proof (induction lines arbitrary: ct)
  case Nil
  then show ?case by (simp add: consumed_simps)
next
  case (Cons rec rest)
  have c: "\<not> fcard ids \<le> 0" using assms(1) by (simp add: fcard_0_eq)
  show ?case
    using Cons.prems Cons.IH [of "Suc ct"] c
    by (auto simp: consumed_simps stopped_simps split: sum.splits bool.splits if_splits)
qed

lemma iterate_lines_only_wanted:
  "(ct', row) \<in> set (emitted (iterate_lines cv cid region (Some ids) n ct lines)) \<Longrightarrow>
     \<exists>rec \<in> set lines. rec ! snd (snd cid) |\<in>| ids \<and> variant_arr_plink cv rec = Inr row"
  by (induction lines arbitrary: ct)
     (auto simp: emitted_simps split: sum.splits bool.splits if_splits)

subsection \<open>subset\<close>

lemma build_index_None: "(build_index xs x = None) = (x \<notin> set xs)"
proof -
  have "map fst (zip xs [0..<length xs]) = xs"
    by (simp add: map_fst_zip)
  then have "fst ` set (zip xs [0..<length xs]) = set xs"
    by (metis set_map)
  then show ?thesis
    by (simp add: build_index_def map_of_eq_None_iff)
qed

lemma build_index_Some:
  assumes "build_index xs x = Some i"
  shows "i < length xs \<and> xs ! i = x"
proof -
  have "(x, i) \<in> set (zip xs [0..<length xs])"
    using assms map_of_SomeD [of "rev (zip xs [0..<length xs])" x i]
    by (simp add: build_index_def)
  then show ?thesis
    by (auto simp: in_set_zip)
qed

lemma build_index_the:
  "x \<in> set xs \<Longrightarrow> the (build_index xs x) < length xs \<and> xs ! the (build_index xs x) = x"
  using build_index_None [of xs x] build_index_Some [of xs x] by force

lemma rect3_take_rows:
  assumes "rect3 n p c x" "\<forall>i\<in>set idx. i < n"
  shows "rect3 (length idx) p c (map ((!) x) idx)"
  using assms by (auto simp: rect3_def list_all_length)

lemma rect3_take_columns:
  assumes "rect3 n p c x" "\<forall>j\<in>set idx. j < p"
  shows "rect3 n (length idx) c (map (\<lambda>row. map ((!) row) idx) x)"
  using assms by (auto simp: rect3_def list_all_length)

lemma wf_take_rows:
  "wf_ndarray d \<Longrightarrow> \<forall>i\<in>set idx. i < shape0 d \<Longrightarrow> wf_ndarray (take_rows idx d)"
  by (auto simp: wf_ndarray_def take_rows_def rect3_take_rows split: cells.splits)

lemma wf_take_columns:
  "wf_ndarray d \<Longrightarrow> \<forall>j\<in>set idx. j < shape1 d \<Longrightarrow> wf_ndarray (take_columns idx d)"
  by (auto simp: wf_ndarray_def take_columns_def rect3_take_columns split: cells.splits)

lemma counts_take_rows: "counts (take_rows idx d) = map ((!) (counts d)) idx"
  if "wf_ndarray d" "\<forall>i\<in>set idx. i < shape0 d"
  using that
  by (auto simp: counts_def take_rows_def wf_ndarray_def rect3_def split: cells.splits)

lemma counts_take_columns:
  assumes "wf_ndarray d" "\<forall>j\<in>set idx. j < shape1 d"
  shows "counts (take_columns idx d) = map (\<lambda>row. map ((!) row) idx) (counts d)"
  using assms
  by (auto simp: counts_def take_columns_def wf_ndarray_def rect3_def list_all_iff
      split: cells.splits)

lemma shape_take [simp]:
  "shape0 (take_rows idx d) = length idx" "shape1 (take_rows idx d) = shape1 d"
  "shape2 (take_rows idx d) = shape2 d" "is_bool (take_rows idx d) = is_bool d"
  "shape0 (take_columns idx d) = shape0 d" "shape1 (take_columns idx d) = length idx"
  "shape2 (take_columns idx d) = shape2 d" "is_bool (take_columns idx d) = is_bool d"
  by (simp_all add: take_rows_def take_columns_def is_bool_def split: cells.splits)

lemma subset_samples_run:
  assumes "shape0 (data g) = length ids"
  shows "subset_samples (build_index ids) req g =
           (Returned,
            g\<lparr>samples := present ids (Some req), samp_idx := None,
              data := take_rows (map (\<lambda>x. the (build_index ids x)) (present ids (Some req)))
                        (data g)\<rparr>,
            fewer Warn_fewer_samples ids (Some req))"
proof -
  have k: "filter (\<lambda>x. build_index ids x \<noteq> None) req = present ids (Some req)"
    by (simp add: present_def build_index_None)
  have "\<not> list_ex (\<lambda>i. length ids \<le> i)
           (map (\<lambda>x. the (build_index ids x)) (present ids (Some req)))"
    using build_index_the [of _ ids]
    by (auto simp: list_ex_iff present_def simp del: not_le dest!: leD)
  then show ?thesis
    unfolding subset_samples_def Let_def k fewer_def using assms by simp
qed

lemma subset_variants_run:
  assumes "shape1 (data g) = length (variants g)"
  shows "subset_variants (build_index (map vid (variants g))) req g =
           (Returned,
            g\<lparr>variants := map ((!) (variants g))
                            (map (\<lambda>x. the (build_index (map vid (variants g)) x))
                               (present (map vid (variants g)) (Some req))),
              var_idx := None,
              data := take_columns
                        (map (\<lambda>x. the (build_index (map vid (variants g)) x))
                           (present (map vid (variants g)) (Some req)))
                        (data g)\<rparr>,
            fewer Warn_fewer_variants (map vid (variants g)) (Some req))"
proof -
  let ?ids = "map vid (variants g)"
  have k: "filter (\<lambda>x. build_index ?ids x \<noteq> None) req = present ?ids (Some req)"
    by (simp add: present_def build_index_None)
  have "\<not> list_ex (\<lambda>i. length (variants g) \<le> i)
           (map (\<lambda>x. the (build_index ?ids x)) (present ?ids (Some req)))"
    using build_index_the [of _ ?ids]
    by (auto simp: list_ex_iff present_def simp del: not_le dest!: leD)
  then show ?thesis
    unfolding subset_variants_def Let_def k fewer_def using assms by simp
qed

lemma positions_in_range: "\<forall>i\<in>set (positions ids req). i < length ids"
  using build_index_the [of _ ids]
  by (auto simp: positions_def present_def split: option.splits)

lemma positions_present: "map ((!) ids) (positions ids req) = present ids req"
proof (cases req)
  case None
  then show ?thesis by (simp add: positions_def present_def map_nth)
next
  case (Some wanted)
  have "map ((!) ids \<circ> (\<lambda>x. the (build_index ids x))) (filter (\<lambda>x. x \<in> set ids) wanted) =
        map (\<lambda>x. x) (filter (\<lambda>x. x \<in> set ids) wanted)"
    by (rule map_cong) (auto simp: build_index_the)
  then show ?thesis by (simp add: Some positions_def present_def)
qed

lemma length_positions: "length (positions ids req) = length (present ids req)"
  using arg_cong [OF positions_present [of ids req], of length] by simp

lemma counts_row_length:
  "wf_ndarray d \<Longrightarrow> row \<in> set (counts d) \<Longrightarrow> length row = shape1 d"
  by (auto simp: counts_def wf_ndarray_def rect3_def list_all_iff split: cells.splits)

lemma counts_all_columns:
  assumes "wf_ndarray d"
  shows "map (\<lambda>row. map ((!) row) [0..<shape1 d]) (counts d) = counts d"
proof -
  have "map (\<lambda>row. map ((!) row) [0..<shape1 d]) (counts d) = map (\<lambda>row. row) (counts d)"
  proof (rule map_cong)
    fix row assume "row \<in> set (counts d)"
    then have "length row = shape1 d" by (rule counts_row_length [OF assms])
    then show "map ((!) row) [0..<shape1 d] = row"
      using map_nth [of row] by simp
  qed simp
  then show ?thesis by simp
qed

lemma counts_all_rows:
  assumes "wf_ndarray d"
  shows "map ((!) (counts d)) [0..<shape0 d] = counts d"
  using length_counts [OF assms] map_nth [of "counts d"] by simp

lemma samples_step:
  assumes wf: "wf_ndarray (data g)" and n: "shape0 (data g) = length (samples g)"
    and sm: "smp \<noteq> None \<Longrightarrow> sm = build_index (samples g)"
    and io: "index_ok (samp_idx g) (samples g)"
  shows "\<exists>g1. (case smp of None \<Rightarrow> (Returned, g, [])
                | Some req \<Rightarrow> subset_samples sm req g) =
                (Returned, g1, fewer Warn_fewer_samples (samples g) smp) \<and>
           samples g1 = map ((!) (samples g)) (positions (samples g) smp) \<and>
           variants g1 = variants g \<and> freq_name g1 = freq_name g \<and>
           var_idx g1 = var_idx g \<and>
           index_ok (samp_idx g1) (samples g1) \<and>
           wf_ndarray (data g1) \<and>
           shape0 (data g1) = length (positions (samples g) smp) \<and>
           shape1 (data g1) = shape1 (data g) \<and> shape2 (data g1) = shape2 (data g) \<and>
           is_bool (data g1) = is_bool (data g) \<and>
           counts (data g1) = map ((!) (counts (data g))) (positions (samples g) smp)"
proof (cases smp)
  case None
  show ?thesis
    using wf n io counts_all_rows [OF wf]
    by (simp add: None fewer_def positions_def map_nth)
next
  case (Some req)
  let ?idx = "positions (samples g) (Some req)"
  have r: "\<forall>i\<in>set ?idx. i < shape0 (data g)"
    using positions_in_range [of "samples g" "Some req"] n by simp
  have run: "subset_samples sm req g =
           (Returned,
            g\<lparr>samples := present (samples g) (Some req), samp_idx := None,
              data := take_rows ?idx (data g)\<rparr>,
            fewer Warn_fewer_samples (samples g) (Some req))"
    using subset_samples_run [OF n, of req] sm Some by (simp add: positions_def)
  show ?thesis
    using run wf_take_rows [OF wf r] counts_take_rows [OF wf r]
    by (simp add: Some positions_present index_ok_def)
qed

lemma variants_step:
  assumes wf: "wf_ndarray (data g)" and p: "shape1 (data g) = length (variants g)"
    and vm: "var \<noteq> None \<Longrightarrow> vm = build_index (map vid (variants g))"
    and io: "index_ok (var_idx g) (map vid (variants g))"
  shows "\<exists>g1. (case var of None \<Rightarrow> (Returned, g, [])
                | Some req \<Rightarrow> subset_variants vm req g) =
                (Returned, g1, fewer Warn_fewer_variants (map vid (variants g)) var) \<and>
           variants g1 = map ((!) (variants g)) (positions (map vid (variants g)) var) \<and>
           samples g1 = samples g \<and> freq_name g1 = freq_name g \<and>
           samp_idx g1 = samp_idx g \<and>
           index_ok (var_idx g1) (map vid (variants g1)) \<and>
           wf_ndarray (data g1) \<and>
           shape0 (data g1) = shape0 (data g) \<and>
           shape1 (data g1) = length (positions (map vid (variants g)) var) \<and>
           shape2 (data g1) = shape2 (data g) \<and>
           is_bool (data g1) = is_bool (data g) \<and>
           counts (data g1) =
             map (\<lambda>row. map ((!) row) (positions (map vid (variants g)) var)) (counts (data g))"
proof (cases var)
  case None
  show ?thesis
    using wf p io counts_all_columns [OF wf]
    by (simp add: None fewer_def positions_def map_nth)
next
  case (Some req)
  let ?ids = "map vid (variants g)"
  let ?idx = "positions ?ids (Some req)"
  have r: "\<forall>i\<in>set ?idx. i < shape1 (data g)"
    using positions_in_range [of ?ids "Some req"] p by simp
  have run: "subset_variants vm req g =
           (Returned,
            g\<lparr>variants := map ((!) (variants g)) ?idx, var_idx := None,
              data := take_columns ?idx (data g)\<rparr>,
            fewer Warn_fewer_variants ?ids (Some req))"
    using subset_variants_run [OF p, of req] vm Some by (simp add: positions_def)
  show ?thesis
    using run wf_take_columns [OF wf r] counts_take_columns [OF wf r]
    by (simp add: Some index_ok_def)
qed

lemma consistent_index: "consistent s \<Longrightarrow> consistent (index a b s)"
  by (simp add: consistent_def index_def index_ok_def)

lemma subset_result:
  assumes "consistent s"
  shows "\<exists>g. subset smp var inplace s =
           (Returned, if inplace then g else index (smp \<noteq> None) (var \<noteq> None) s, g,
            fewer Warn_fewer_samples (samples s) smp @
            fewer Warn_fewer_variants (map vid (variants s)) var) \<and>
         samples g = present (samples s) smp \<and>
         variants g = map ((!) (variants s)) (positions (map vid (variants s)) var) \<and>
         map vid (variants g) = present (map vid (variants s)) var \<and>
         consistent g \<and> freq_name g = freq_name s \<and>
         shape2 (data g) = shape2 (data s) \<and> is_bool (data g) = is_bool (data s) \<and>
         counts (data g) =
           map (\<lambda>row. map ((!) row) (positions (map vid (variants s)) var))
             (map ((!) (counts (data s))) (positions (samples s) smp))"
proof -
  define self where "self = index (smp \<noteq> None) (var \<noteq> None) s"
  define gts where
    "gts = (if inplace then self else self\<lparr>prephased := False, samp_idx := None, var_idx := None\<rparr>)"
  have c: "wf_ndarray (data s)" "shape0 (data s) = length (samples s)"
    "shape1 (data s) = length (variants s)" "index_ok (samp_idx s) (samples s)"
    "index_ok (var_idx s) (map vid (variants s))"
    using assms by (simp_all add: consistent_def)
  have fs: "smp \<noteq> None \<Longrightarrow> the (samp_idx self) = build_index (samples s)"
    using c(4) by (auto simp: self_def index_def index_ok_def split: option.splits)
  have fv: "var \<noteq> None \<Longrightarrow> the (var_idx self) = build_index (map vid (variants s))"
    using c(5) by (auto simp: self_def index_def index_ok_def split: option.splits)
  have g0: "samples gts = samples s" "variants gts = variants s" "data gts = data s"
    "freq_name gts = freq_name s"
    by (simp_all add: gts_def self_def index_def)
  have i0: "index_ok (samp_idx gts) (samples s)" "index_ok (var_idx gts) (map vid (variants s))"
    using c(4,5) by (auto simp: gts_def self_def index_def index_ok_def split: option.splits)
  obtain g1 where r1: "(case smp of None \<Rightarrow> (Returned, gts, [])
                | Some req \<Rightarrow> subset_samples (the (samp_idx self)) req gts) =
                (Returned, g1, fewer Warn_fewer_samples (samples s) smp)"
    and p1: "samples g1 = map ((!) (samples s)) (positions (samples s) smp)"
      "variants g1 = variants s" "freq_name g1 = freq_name s" "var_idx g1 = var_idx gts"
      "index_ok (samp_idx g1) (samples g1)" "wf_ndarray (data g1)"
      "shape0 (data g1) = length (positions (samples s) smp)"
      "shape1 (data g1) = shape1 (data s)" "shape2 (data g1) = shape2 (data s)"
      "is_bool (data g1) = is_bool (data s)"
      "counts (data g1) = map ((!) (counts (data s))) (positions (samples s) smp)"
  proof -
    have a: "wf_ndarray (data gts)" "shape0 (data gts) = length (samples gts)"
      "index_ok (samp_idx gts) (samples gts)"
      using c(1,2) i0(1) by (simp_all add: g0)
    have b: "smp \<noteq> None \<Longrightarrow> the (samp_idx self) = build_index (samples gts)"
      using fs by (simp add: g0)
    have "\<exists>g1. (case smp of None \<Rightarrow> (Returned, gts, [])
                | Some req \<Rightarrow> subset_samples (the (samp_idx self)) req gts) =
                (Returned, g1, fewer Warn_fewer_samples (samples gts) smp) \<and>
           samples g1 = map ((!) (samples gts)) (positions (samples gts) smp) \<and>
           variants g1 = variants gts \<and> freq_name g1 = freq_name gts \<and>
           var_idx g1 = var_idx gts \<and>
           index_ok (samp_idx g1) (samples g1) \<and>
           wf_ndarray (data g1) \<and>
           shape0 (data g1) = length (positions (samples gts) smp) \<and>
           shape1 (data g1) = shape1 (data gts) \<and> shape2 (data g1) = shape2 (data gts) \<and>
           is_bool (data g1) = is_bool (data gts) \<and>
           counts (data g1) = map ((!) (counts (data gts))) (positions (samples gts) smp)"
      by (rule samples_step [OF a(1,2) b a(3)])
    then show ?thesis unfolding g0 using that by blast
  qed
  obtain g2 where r2: "(case var of None \<Rightarrow> (Returned, g1, [])
                | Some req \<Rightarrow> subset_variants (the (var_idx self)) req g1) =
                (Returned, g2, fewer Warn_fewer_variants (map vid (variants s)) var)"
    and p2: "variants g2 = map ((!) (variants s)) (positions (map vid (variants s)) var)"
      "samples g2 = samples g1" "freq_name g2 = freq_name g1" "samp_idx g2 = samp_idx g1"
      "index_ok (var_idx g2) (map vid (variants g2))" "wf_ndarray (data g2)"
      "shape0 (data g2) = shape0 (data g1)"
      "shape1 (data g2) = length (positions (map vid (variants s)) var)"
      "shape2 (data g2) = shape2 (data g1)" "is_bool (data g2) = is_bool (data g1)"
      "counts (data g2) =
         map (\<lambda>row. map ((!) row) (positions (map vid (variants s)) var)) (counts (data g1))"
  proof -
    have a: "wf_ndarray (data g1)" "shape1 (data g1) = length (variants g1)"
      "index_ok (var_idx g1) (map vid (variants g1))"
      using p1(6,8) c(3) i0(2) by (simp_all add: p1(2,4))
    have b: "var \<noteq> None \<Longrightarrow> the (var_idx self) = build_index (map vid (variants g1))"
      using fv by (simp add: p1(2))
    have "\<exists>g2. (case var of None \<Rightarrow> (Returned, g1, [])
                | Some req \<Rightarrow> subset_variants (the (var_idx self)) req g1) =
                (Returned, g2, fewer Warn_fewer_variants (map vid (variants g1)) var) \<and>
           variants g2 = map ((!) (variants g1)) (positions (map vid (variants g1)) var) \<and>
           samples g2 = samples g1 \<and> freq_name g2 = freq_name g1 \<and>
           samp_idx g2 = samp_idx g1 \<and>
           index_ok (var_idx g2) (map vid (variants g2)) \<and>
           wf_ndarray (data g2) \<and>
           shape0 (data g2) = shape0 (data g1) \<and>
           shape1 (data g2) = length (positions (map vid (variants g1)) var) \<and>
           shape2 (data g2) = shape2 (data g1) \<and>
           is_bool (data g2) = is_bool (data g1) \<and>
           counts (data g2) =
             map (\<lambda>row. map ((!) row) (positions (map vid (variants g1)) var)) (counts (data g1))"
      by (rule variants_step [OF a(1,2) b a(3)])
    then show ?thesis unfolding p1(2) using that by blast
  qed
  have run: "subset smp var inplace s =
      (Returned, if inplace then g2 else self, g2,
       fewer Warn_fewer_samples (samples s) smp @
       fewer Warn_fewer_variants (map vid (variants s)) var)"
    unfolding subset_def Let_def
    unfolding self_def [symmetric]
    unfolding gts_def [symmetric]
    unfolding r1
    using r2 by (cases var) (simp_all add: and_then_def fewer_def)
  have ids: "map vid (variants g2) = present (map vid (variants s)) var"
  proof -
    have "map vid (map ((!) (variants s)) (positions (map vid (variants s)) var)) =
          map ((!) (map vid (variants s))) (positions (map vid (variants s)) var)"
      using positions_in_range [of "map vid (variants s)" var] by simp
    then show ?thesis by (simp add: p2(1) positions_present)
  qed
  have cons: "consistent g2"
    using p1 p2 by (simp add: consistent_def)
  show ?thesis
    apply (rule exI [of _ g2])
    using run ids cons p1 p2 by (simp add: self_def positions_present)
qed

subsection \<open>Consistency is kept\<close>

lemma length_np_delete: "length (np_delete idx xs) = length (np_delete idx [0..<length xs])"
  by (simp add: np_delete_def)

lemma set_np_delete: "set (np_delete idx xs) \<subseteq> set xs"
  by (auto simp: np_delete_def)

lemma rect3_delete0:
  assumes "rect3 n p c x"
  shows "rect3 (length (np_delete idx [0..<n])) p c (np_delete idx x)"
proof -
  have "length (np_delete idx x) = length (np_delete idx [0..<n])"
    using assms length_np_delete [of idx x] by (simp add: rect3_def)
  moreover have "set (np_delete idx x) \<subseteq> set x" by (rule set_np_delete)
  ultimately show ?thesis
    using assms by (auto simp: rect3_def list_all_iff)
qed

lemma rect3_delete1:
  assumes "rect3 n p c x"
  shows "rect3 n (length (np_delete idx [0..<p])) c (map (np_delete idx) x)"
proof -
  have "length (np_delete idx row) = length (np_delete idx [0..<p]) \<and>
        (\<forall>cell\<in>set (np_delete idx row). length cell = c)" if "row \<in> set x" for row
    using that assms length_np_delete [of idx row] set_np_delete [of idx row]
    by (auto simp: rect3_def list_all_iff)
  then show ?thesis
    using assms by (auto simp: rect3_def list_all_iff)
qed

lemma wf_delete_axis0: "wf_ndarray d \<Longrightarrow> wf_ndarray (delete_axis0 idx d)"
  by (auto simp: wf_ndarray_def delete_axis0_def rect3_delete0 split: cells.splits)

lemma wf_delete_axis1: "wf_ndarray d \<Longrightarrow> wf_ndarray (delete_axis1 idx d)"
  by (auto simp: wf_ndarray_def delete_axis1_def rect3_delete1 split: cells.splits)

lemma wf_astype_bool: "wf_ndarray d \<Longrightarrow> wf_ndarray (astype_bool d)"
  by (auto simp: wf_ndarray_def astype_bool_def rect3_def list_all_iff split: cells.splits)

lemma wf_take_channels: "wf_ndarray d \<Longrightarrow> wf_ndarray (take_channels k d)"
  by (auto simp: wf_ndarray_def take_channels_def rect3_def list_all_iff min.commute
      split: cells.splits)

lemma mask_shape:
  assumes "wf_ndarray d"
  shows "length (missing_mask d) = shape0 d" "length (multiallelic_mask d) = shape0 d"
    "i < shape0 d \<Longrightarrow> length (missing_mask d ! i) = shape1 d"
    "i < shape0 d \<Longrightarrow> length (multiallelic_mask d ! i) = shape1 d"
  using assms
  by (auto simp: wf_ndarray_def missing_mask_def multiallelic_mask_def rect3_length rect3_nth
      split: cells.splits)

lemma nonzero_in_range:
  assumes "(i, j) \<in> set (nonzero m)"
  shows "i < length m \<and> j < length (m ! i)"
  using assms by (simp add: set_nonzero)

lemma check_missing_consistent:
  assumes "consistent s" "check_missing discard_also s = (oc, s', out)"
  shows "consistent s' \<and> (oc \<noteq> Returned \<longrightarrow> s' = s)"
proof (cases "nonzero (missing_mask (data s))")
  case Nil
  then show ?thesis using assms by (auto simp: check_missing_def)
next
  case (Cons ij rest)
  show ?thesis
  proof (cases discard_also)
    case False
    then show ?thesis using assms Cons by (auto simp: check_missing_def)
  next
    case True
    have wf: "wf_ndarray (data s)" and n: "shape0 (data s) = length (samples s)"
      and r: "shape1 (data s) = length (variants s)"
      "index_ok (var_idx s) (map vid (variants s))"
      using assms(1) by (simp_all add: consistent_def)
    define samp where "samp = fst ij # map fst rest"
    have ss: "set samp = fst ` set (nonzero (missing_mask (data s)))"
      by (simp add: samp_def Cons)
    have "i < length (samples s)" if h: "i \<in> set samp" for i
    proof -
      obtain j where "(i, j) \<in> set (nonzero (missing_mask (data s)))"
        using h ss by auto
      then show ?thesis
        using nonzero_in_range [of i j "missing_mask (data s)"] mask_shape(1) [OF wf] n
        by simp
    qed
    then have inr: "\<not> list_ex (\<lambda>i. length (samples s) \<le> i) samp"
      unfolding list_ex_iff by (meson not_le)
    have s': "s' = s\<lparr>data := delete_axis0 samp (data s),
                     samples := np_delete samp (samples s), samp_idx := None\<rparr>"
      and oc: "oc = Returned"
      using assms(2) inr True by (auto simp: check_missing_def Cons Let_def samp_def)
    have "shape0 (delete_axis0 samp (data s)) = length (np_delete samp (samples s))"
      using length_np_delete [of samp "samples s"] by (simp add: delete_axis0_def n)
    moreover have "shape1 (delete_axis0 samp (data s)) = shape1 (data s)"
      by (simp add: delete_axis0_def)
    ultimately show ?thesis
      using wf_delete_axis0 [OF wf, of samp] r oc
      by (simp add: s' consistent_def index_ok_def)
  qed
qed

lemma check_biallelic_consistent:
  assumes "consistent s" "check_biallelic discard_also s = (oc, s', out)"
  shows "consistent s' \<and> (oc \<noteq> Returned \<longrightarrow> s' = s)"
proof (cases "is_bool (data s)")
  case True
  then show ?thesis using assms by (auto simp: check_biallelic_def)
next
  case notb: False
  have wf: "wf_ndarray (data s)" and n: "shape0 (data s) = length (samples s)"
    "index_ok (samp_idx s) (samples s)"
    and p: "shape1 (data s) = length (variants s)"
    and v: "index_ok (var_idx s) (map vid (variants s))"
    using assms(1) by (simp_all add: consistent_def)
  have sh: "shape0 (astype_bool d) = shape0 d" "shape1 (astype_bool d) = shape1 d" for d
    by (simp_all add: astype_bool_def)
  show ?thesis
  proof (cases "nonzero (multiallelic_mask (data s))")
    case Nil
    then show ?thesis
      using assms notb wf_astype_bool [OF wf]
      by (auto simp: check_biallelic_def consistent_def sh)
  next
    case (Cons ij rest)
    show ?thesis
    proof (cases discard_also)
      case False
      then show ?thesis using assms Cons notb by (auto simp: check_biallelic_def)
    next
      case True
      define var where "var = snd ij # map snd rest"
      have vs: "set var = snd ` set (nonzero (multiallelic_mask (data s)))"
        by (simp add: var_def Cons)
      have "j < length (variants s)" if h: "j \<in> set var" for j
      proof -
        obtain i where "(i, j) \<in> set (nonzero (multiallelic_mask (data s)))"
          using h vs by auto
        then show "j < length (variants s)"
          using nonzero_in_range [of i j "multiallelic_mask (data s)"] mask_shape(2,4) [OF wf] p
          by auto
      qed
      then have inr: "\<not> list_ex (\<lambda>j. length (variants s) \<le> j) var"
        unfolding list_ex_iff by (meson not_le)
      have s': "s' = s\<lparr>data := astype_bool (delete_axis1 var (data s)),
                       variants := np_delete var (variants s), var_idx := None\<rparr>"
        and oc: "oc = Returned"
        using assms(2) inr True notb by (auto simp: check_biallelic_def Cons Let_def var_def)
      have "shape1 (delete_axis1 var (data s)) = length (np_delete var (variants s))"
        using length_np_delete [of var "variants s"] by (simp add: delete_axis1_def p)
      moreover have "shape0 (delete_axis1 var (data s)) = shape0 (data s)"
        by (simp add: delete_axis1_def)
      ultimately show ?thesis
        using wf_astype_bool [OF wf_delete_axis1 [OF wf, of var]] n oc
        by (simp add: s' consistent_def index_ok_def sh)
    qed
  qed
qed

lemma check_phase_consistent:
  assumes "consistent s" "check_phase s = (oc, s', out)"
  shows "consistent s' \<and> (oc \<noteq> Returned \<longrightarrow> s' = s)"
proof -
  have wf: "wf_ndarray (take_channels 2 (data s))"
    using assms(1) by (simp add: consistent_def wf_take_channels)
  have "shape0 (take_channels 2 (data s)) = shape0 (data s)"
    "shape1 (take_channels 2 (data s)) = shape1 (data s)"
    by (simp_all add: take_channels_def)
  then show ?thesis
    using assms wf
    by (auto simp: check_phase_def consistent_def split: if_splits list.splits)
qed

lemma to_MAC_consistent:
  assumes "consistent s" "to_MAC s = (oc, s', out)"
  shows "consistent s' \<and> (oc \<noteq> Returned \<longrightarrow> s' = s)"
proof (cases "freq_name s = Maf")
  case True
  then show ?thesis using assms by (auto simp: to_MAC_def)
next
  case False
  define need where "need = map (\<lambda>v. 1 / 2 < aaf v) (variants s)"
  have wf: "wf_ndarray (data s)" and p: "shape1 (data s) = length (variants s)"
    and r: "shape0 (data s) = length (samples s)" "index_ok (samp_idx s) (samples s)"
      "index_ok (var_idx s) (map vid (variants s))"
    using assms(1) by (simp_all add: consistent_def)
  have n: "length need = shape1 (data s)" by (simp add: need_def p)
  have s': "s' = s\<lparr>data := invert_columns need (data s),
         variants := map (\<lambda>v. if 1 / 2 < aaf v then v\<lparr>aaf := 1 - aaf v\<rparr> else v) (variants s),
         freq_name := Maf\<rparr>" and oc: "oc = Returned"
    using assms(2) False p by (auto simp: to_MAC_def need_def)
  have "shape0 (invert_columns need (data s)) = shape0 (data s)"
    "shape1 (invert_columns need (data s)) = shape1 (data s)"
    by (simp_all add: invert_columns_def)
  then show ?thesis
    using wf_invert_columns [OF wf n] p r oc
    by (simp add: s' consistent_def comp_def if_distrib [of vid] cong: if_cong)
qed

lemma consistent_aligned: "consistent s \<Longrightarrow> aligned s"
  by (simp add: consistent_def aligned_def)

text \<open>
  Claim C6. On a consistent instance (the tensor agrees with its shape, its first two axes
  are as long as the sample list and the variant table, and each index cache is absent or
  the index of the current identifiers), each of \<^verbatim>\<open>check_missing\<close>,
  \<^verbatim>\<open>check_biallelic\<close> (in default and in discard mode), \<^verbatim>\<open>check_phase\<close> and \<^verbatim>\<open>to_MAC\<close>
  leaves a consistent instance, with axis 0 as long as the sample list and axis 1 as long as
  the variant table, whether it returns or raises; when it raises, the instance is exactly
  as before the call. \<^verbatim>\<open>subset\<close> never raises, and both the instance it worked on and
  \<^verbatim>\<open>self\<close> are consistent afterwards.
\<close>

theorem stages_and_subset_keep_alignment:
  assumes "consistent s"
  shows
    "(\<forall>oc s' out. check_missing discard_also s = (oc, s', out) \<longrightarrow>
        consistent s' \<and> aligned s' \<and> (oc \<noteq> Returned \<longrightarrow> s' = s)) \<and>
     (\<forall>oc s' out. check_biallelic discard_also s = (oc, s', out) \<longrightarrow>
        consistent s' \<and> aligned s' \<and> (oc \<noteq> Returned \<longrightarrow> s' = s)) \<and>
     (\<forall>oc s' out. check_phase s = (oc, s', out) \<longrightarrow>
        consistent s' \<and> aligned s' \<and> (oc \<noteq> Returned \<longrightarrow> s' = s)) \<and>
     (\<forall>oc s' out. to_MAC s = (oc, s', out) \<longrightarrow>
        consistent s' \<and> aligned s' \<and> (oc \<noteq> Returned \<longrightarrow> s' = s)) \<and>
     (\<forall>oc self' g out. subset smp var inplace s = (oc, self', g, out) \<longrightarrow>
        oc = Returned \<and> consistent self' \<and> aligned self' \<and> consistent g \<and> aligned g)"
proof -
  have a: "\<forall>oc s' out. check_missing discard_also s = (oc, s', out) \<longrightarrow>
        consistent s' \<and> aligned s' \<and> (oc \<noteq> Returned \<longrightarrow> s' = s)"
    using check_missing_consistent [OF assms] consistent_aligned by blast
  have b: "\<forall>oc s' out. check_biallelic discard_also s = (oc, s', out) \<longrightarrow>
        consistent s' \<and> aligned s' \<and> (oc \<noteq> Returned \<longrightarrow> s' = s)"
    using check_biallelic_consistent [OF assms] consistent_aligned by blast
  have c: "\<forall>oc s' out. check_phase s = (oc, s', out) \<longrightarrow>
        consistent s' \<and> aligned s' \<and> (oc \<noteq> Returned \<longrightarrow> s' = s)"
    using check_phase_consistent [OF assms] consistent_aligned by blast
  have d: "\<forall>oc s' out. to_MAC s = (oc, s', out) \<longrightarrow>
        consistent s' \<and> aligned s' \<and> (oc \<noteq> Returned \<longrightarrow> s' = s)"
    using to_MAC_consistent [OF assms] consistent_aligned by blast
  obtain g0 where run: "subset smp var inplace s =
           (Returned, if inplace then g0 else index (smp \<noteq> None) (var \<noteq> None) s, g0,
            fewer Warn_fewer_samples (samples s) smp @
            fewer Warn_fewer_variants (map vid (variants s)) var)"
    and g0: "consistent g0"
    using subset_result [OF assms, of smp var inplace] by blast
  have "consistent (if inplace then g0 else index (smp \<noteq> None) (var \<noteq> None) s)"
    using g0 consistent_index [OF assms] by simp
  then have e: "\<forall>oc self' g out. subset smp var inplace s = (oc, self', g, out) \<longrightarrow>
        oc = Returned \<and> consistent self' \<and> aligned self' \<and> consistent g \<and> aligned g"
    using run g0 consistent_aligned by auto
  show ?thesis using a b c d e by (intro conjI)
qed

lemma consistent_demo_discarded: "consistent demo_discarded"
  by (simp add: consistent_def demo_discarded_def demo_u8_def wf_ndarray_def rect3_def index_ok_def)

lemma demo_discard_run:
  "check_missing True demo_missing = (Returned, demo_discarded, [Info_ignoring_missing 1])"
  by (simp add: check_missing_def demo_missing_def demo_discarded_def demo_u8_def
      missing_mask_def nonzero_def delete_axis0_def np_delete_def upt_conv_Cons)

theorem stages_and_subset_keep_alignment_witness:
  "consistent demo_missing \<and>
   check_missing True demo_missing = (Returned, demo_discarded, [Info_ignoring_missing 1]) \<and>
   consistent demo_discarded \<and> aligned demo_discarded \<and>
   shape0 (data demo_discarded) = 1 \<and> samples demo_discarded = [''s1'']"
  using stages_and_subset_keep_alignment [OF consistent_demo_missing, of True]
    consistent_demo_missing demo_discard_run
  by (simp add: demo_discarded_def demo_u8_def)

text \<open>
  Claim C9. On a consistent instance \<^verbatim>\<open>subset\<close> returns and never raises. The resulting
  sample list is the requested list restricted to the names present in the data, in the
  requested order (the whole list when every name is present), and the tensor has one row
  for each of them, namely the row the data held for that sample; likewise the variant
  table and the columns for the requested variant identifiers. The only messages are the
  warnings that count the absent identifiers, one for the samples and one for the
  variants, each logged only when some identifier is absent.
\<close>

theorem subset_keeps_present_in_requested_order:
  assumes "consistent s"
  shows "\<exists>self' g. subset smp var inplace s =
           (Returned, self', g,
            fewer Warn_fewer_samples (samples s) smp @
            fewer Warn_fewer_variants (map vid (variants s)) var) \<and>
         samples g = present (samples s) smp \<and>
         map vid (variants g) = present (map vid (variants s)) var \<and>
         shape0 (data g) = length (present (samples s) smp) \<and>
         shape1 (data g) = length (present (map vid (variants s)) var) \<and>
         (\<forall>req. smp = Some req \<and> set req \<subseteq> set (samples s) \<longrightarrow>
            samples g = req \<and> shape0 (data g) = length req) \<and>
         (\<forall>req. var = Some req \<and> set req \<subseteq> set (map vid (variants s)) \<longrightarrow>
            map vid (variants g) = req \<and> shape1 (data g) = length req) \<and>
         samples g = map ((!) (samples s)) (positions (samples s) smp) \<and>
         variants g = map ((!) (variants s)) (positions (map vid (variants s)) var) \<and>
         counts (data g) =
           map (\<lambda>row. map ((!) row) (positions (map vid (variants s)) var))
             (map ((!) (counts (data s))) (positions (samples s) smp))"
proof -
  obtain g where run: "subset smp var inplace s =
           (Returned, if inplace then g else index (smp \<noteq> None) (var \<noteq> None) s, g,
            fewer Warn_fewer_samples (samples s) smp @
            fewer Warn_fewer_variants (map vid (variants s)) var)"
    and p: "samples g = present (samples s) smp"
      "variants g = map ((!) (variants s)) (positions (map vid (variants s)) var)"
      "map vid (variants g) = present (map vid (variants s)) var"
      "consistent g"
      "counts (data g) =
           map (\<lambda>row. map ((!) row) (positions (map vid (variants s)) var))
             (map ((!) (counts (data s))) (positions (samples s) smp))"
    using subset_result [OF assms, of smp var inplace] by blast
  have sh: "shape0 (data g) = length (present (samples s) smp)"
    "shape1 (data g) = length (present (map vid (variants s)) var)"
    using p(4) p(1) arg_cong [OF p(3), of length] by (simp_all add: consistent_def)
  have full: "present ids (Some req) = req" if "set req \<subseteq> set ids" for ids req
    using that by (auto simp: present_def filter_id_conv)
  show ?thesis
    apply (rule exI [of _ "if inplace then g else index (smp \<noteq> None) (var \<noteq> None) s"])
    apply (rule exI [of _ g])
    using run p sh full by (auto simp: positions_present)
qed

lemma demo_subset_run:
  "\<exists>self'. subset (Some [''s2'', ''zz'', ''s1'']) (Some [''rs2'']) False demo_bool =
     (Returned, self', demo_subset, [Warn_fewer_samples 1 2])"
  by (simp add: subset_def index_def build_index_def subset_samples_def subset_variants_def
      and_then_def take_rows_def take_columns_def demo_bool_def demo_u8_def demo_subset_def
      upt_conv_Cons)

theorem subset_keeps_present_in_requested_order_witness:
  "consistent demo_bool \<and>
   samples demo_bool = [''s1'', ''s2''] \<and> map vid (variants demo_bool) = [''rs1'', ''rs2''] \<and>
   (\<exists>self'. subset (Some [''s2'', ''zz'', ''s1'']) (Some [''rs2'']) False demo_bool =
              (Returned, self', demo_subset, [Warn_fewer_samples 1 2])) \<and>
   samples demo_subset = [''s2'', ''s1''] \<and> map vid (variants demo_subset) = [''rs2''] \<and>
   shape0 (data demo_subset) = 2 \<and> shape1 (data demo_subset) = 1"
proof -
  have a: "samples demo_bool = [''s1'', ''s2'']" "map vid (variants demo_bool) = [''rs1'', ''rs2'']"
    by (simp_all add: demo_bool_def demo_u8_def)
  have b: "present [''s1'', ''s2''] (Some [''s2'', ''zz'', ''s1'']) = [''s2'', ''s1'']"
    "present [''rs1'', ''rs2''] (Some [''rs2'']) = [''rs2'']"
    by (simp_all add: present_def)
  obtain self' g where
    "subset (Some [''s2'', ''zz'', ''s1'']) (Some [''rs2'']) False demo_bool =
       (Returned, self', g,
        fewer Warn_fewer_samples (samples demo_bool) (Some [''s2'', ''zz'', ''s1'']) @
        fewer Warn_fewer_variants (map vid (variants demo_bool)) (Some [''rs2'']))"
    and g: "samples g = present (samples demo_bool) (Some [''s2'', ''zz'', ''s1''])"
      "map vid (variants g) = present (map vid (variants demo_bool)) (Some [''rs2''])"
      "shape0 (data g) = length (present (samples demo_bool) (Some [''s2'', ''zz'', ''s1'']))"
      "shape1 (data g) = length (present (map vid (variants demo_bool)) (Some [''rs2'']))"
    using subset_keeps_present_in_requested_order
      [OF consistent_demo_bool, of "Some [''s2'', ''zz'', ''s1'']" "Some [''rs2'']" False]
    by blast
  moreover obtain self'' where
    "subset (Some [''s2'', ''zz'', ''s1'']) (Some [''rs2'']) False demo_bool =
       (Returned, self'', demo_subset, [Warn_fewer_samples 1 2])"
    using demo_subset_run by blast
  ultimately have "g = demo_subset" by simp
  then show ?thesis
    using g a b consistent_demo_bool demo_subset_run by simp
qed

subsection \<open>The frequencies of a PLINK trio\<close>

lemma variant_arr_plink_half: "variant_arr_plink cv rec = Inr row \<Longrightarrow> aaf row = 1 / 2"
  by (auto simp: variant_arr_plink_def split: if_splits option.splits)

lemma iterate_lines_half:
  "(ct', row) \<in> set (emitted (iterate_lines cv cid region wanted n ct lines)) \<Longrightarrow>
     aaf row = 1 / 2"
proof (induction lines arbitrary: ct)
  case Nil
  then show ?case by (simp add: emitted_simps)
next
  case (Cons rec rest)
  then show ?case
    by (auto simp: emitted_simps variant_arr_plink_half
        split: sum.splits bool.splits option.splits if_splits)
qed

lemma iterate_variants_half:
  "(ct, row) \<in> set (emitted (iterate_variants cv pvar region wanted)) \<Longrightarrow> aaf row = 1 / 2"
  by (auto simp: iterate_variants_def emitted_simps iterate_lines_half
      split: sum.splits prod.splits)

lemma read_variants_half:
  assumes "read_variants cv pvar region wanted mv = Inr (idx, rows)" "row \<in> set rows"
  shows "aaf row = 1 / 2"
proof -
  have "rows = map snd (take n (emitted (iterate_variants cv pvar region wanted))) \<Longrightarrow>
        aaf row = 1 / 2" for n
    using assms(2) iterate_variants_half [of _ row cv pvar region wanted]
    by (auto dest: in_set_takeD)
  moreover have "rows = map snd (emitted (iterate_variants cv pvar region wanted)) \<Longrightarrow>
        aaf row = 1 / 2"
    using assms(2) iterate_variants_half [of _ row cv pvar region wanted] by auto
  ultimately show ?thesis
    using assms(1)
    by (auto simp: read_variants_def Let_def read_loop_take
        split: option.splits if_splits outcome.splits)
qed

lemma flip2_none:
  assumes "length row = length need" "\<forall>n\<in>set need. \<not> n"
  shows "flip2 f need row = row"
proof -
  have "map (\<lambda>(n, cell). if n then map f (take 2 cell) @ drop 2 cell else cell) (zip need row) =
        map snd (zip need row)"
    using assms(2) by (intro map_cong) (auto dest: set_zip_leftD)
  then show ?thesis using assms(1) by (simp add: flip2_def)
qed

lemma flip2_rows_none:
  assumes "rect3 n p c x" "length need = p" "\<forall>n\<in>set need. \<not> n"
  shows "map (flip2 f need) x = x"
proof -
  have "map (flip2 f need) x = map (\<lambda>row. row) x"
    using assms by (intro map_cong) (auto simp: rect3_def list_all_iff flip2_none)
  then show ?thesis by simp
qed

lemma invert_columns_none:
  assumes "wf_ndarray d" "length need = shape1 d" "\<forall>n\<in>set need. \<not> n"
  shows "invert_columns need d = d"
  using assms
  by (cases "cells d") (auto simp: invert_columns_def wf_ndarray_def flip2_rows_none)

lemma to_MAC_all_half:
  assumes "consistent s" "freq_name s = Aaf" "\<forall>v\<in>set (variants s). aaf v = 1 / 2"
  shows "to_MAC s = (Returned, s\<lparr>freq_name := Maf\<rparr>, [])"
proof -
  have wf: "wf_ndarray (data s)" and p: "shape1 (data s) = length (variants s)"
    using assms(1) by (simp_all add: consistent_def)
  have inv: "invert_columns (map (\<lambda>v. 1 / 2 < aaf v) (variants s)) (data s) = data s"
    using assms(3) by (intro invert_columns_none [OF wf]) (auto simp: p)
  have vs: "map (\<lambda>v. if 1 / 2 < aaf v then v\<lparr>aaf := 1 - aaf v\<rparr> else v) (variants s) =
            map (\<lambda>v. v) (variants s)"
    using assms(3) by (intro map_cong) auto
  show ?thesis
    unfolding to_MAC_def Let_def inv vs using assms(2) p by simp
qed

text \<open>
  Claim C10. Whenever \<^verbatim>\<open>GenotypesPLINK._variant_arr\<close> returns a row, its frequency is
  exactly one half; so is the frequency of every row that \<^verbatim>\<open>read_variants\<close> stores,
  whatever the genotypes are; and on every consistent instance labelled \<^verbatim>\<open>aaf\<close> whose
  variant table consists of such rows, \<^verbatim>\<open>to_MAC\<close> returns, logs nothing, and changes
  nothing but the label of the frequency column, which becomes \<^verbatim>\<open>maf\<close>.
\<close>

theorem plink_frequencies_are_one_half:
  "(variant_arr_plink cv rec = Inr row \<longrightarrow> aaf row = 1 / 2) \<and>
   (read_variants cv pvar region wanted mv = Inr (idx, rows) \<longrightarrow>
      (\<forall>r\<in>set rows. aaf r = 1 / 2) \<and>
      (\<forall>s. consistent s \<and> freq_name s = Aaf \<and> set (variants s) \<subseteq> set rows \<longrightarrow>
           to_MAC s = (Returned, s\<lparr>freq_name := Maf\<rparr>, [])))"
proof (intro conjI impI allI)
  assume "variant_arr_plink cv rec = Inr row"
  then show "aaf row = 1 / 2" by (rule variant_arr_plink_half)
next
  assume "read_variants cv pvar region wanted mv = Inr (idx, rows)"
  then show "\<forall>r\<in>set rows. aaf r = 1 / 2"
    using read_variants_half by blast
next
  fix s :: "unit variant_refalt_ext genotypes"
  assume r: "read_variants cv pvar region wanted mv = Inr (idx, rows)"
    and s: "consistent s \<and> freq_name s = Aaf \<and> set (variants s) \<subseteq> set rows"
  have "\<forall>v\<in>set (variants s). aaf v = 1 / 2"
    using read_variants_half [OF r] s by blast
  then show "to_MAC s = (Returned, s\<lparr>freq_name := Maf\<rparr>, [])"
    using to_MAC_all_half s by blast
qed

lemma demo_read_variants:
  "read_variants demo_conv demo_pvar None None (Some 2) = Inr ([0, 1], demo_plink_rows)"
  by (simp add: read_variants_def iterate_variants_def demo_pvar_def demo_conv_def
      demo_plink_rows_def startswith_def header_columns_def list_index_def outside_region_def
      variant_arr_plink_def emitted_simps stopped_simps)

lemma consistent_demo_plink: "consistent demo_plink"
  by (simp add: consistent_def demo_plink_def demo_plink_rows_def wf_ndarray_def rect3_def
      index_ok_def)

theorem plink_frequencies_are_one_half_witness:
  "read_variants demo_conv demo_pvar None None (Some 2) = Inr ([0, 1], demo_plink_rows) \<and>
   map aaf demo_plink_rows = [1 / 2, 1 / 2] \<and>
   consistent demo_plink \<and> freq_name demo_plink = Aaf \<and>
   variants demo_plink = demo_plink_rows \<and>
   to_MAC demo_plink = (Returned, demo_plink\<lparr>freq_name := Maf\<rparr>, [])"
proof -
  have a: "freq_name demo_plink = Aaf" "variants demo_plink = demo_plink_rows"
    by (simp_all add: demo_plink_def)
  have "to_MAC demo_plink = (Returned, demo_plink\<lparr>freq_name := Maf\<rparr>, [])"
    using plink_frequencies_are_one_half
      [of demo_conv "[]" "undefined" demo_pvar None None "Some 2" "[0, 1]" demo_plink_rows]
      demo_read_variants consistent_demo_plink a
    by simp
  then show ?thesis
    using demo_read_variants consistent_demo_plink a by (simp add: demo_plink_rows_def)
qed

subsection \<open>The instances load returns\<close>

text \<open>
  On a file of the decoder's shape, whatever \<^verbatim>\<open>load\<close> returns is consistent, boolean and
  two-channelled, the state on which the amended claims C2 and C4 speak, and still
  labelled \<^verbatim>\<open>aaf\<close>.
\<close>

lemma emitted_from_records:
  "set (emitted (iterate_vcf pre wanted n records)) \<subseteq> as_record pre ` set records"
  by (induction records arbitrary: n) (auto simp: emitted_simps as_record_def)

lemma consistent_assemble:
  assumes "set recs \<subseteq> as_record (prephased s) ` set records"
    and "well_shaped (length (samples s)) (2 + (if prephased s then 0 else 1)) records"
    and "samp_idx s = None" "var_idx s = None"
  shows "consistent (s\<lparr>variants := fst (assemble recs s), data := snd (assemble recs s)\<rparr>)"
proof -
  have "list_all (\<lambda>x. length x = length (samples s) \<and>
          list_all (\<lambda>cell. length cell = 2 + (if prephased s then 0 else 1)) x) (map fst recs)"
    using assms(1,2) genotype_arr_shape [of _ "length (samples s)" "prephased s"]
    unfolding well_shaped_def list_all_iff as_record_def by fastforce
  then have "rect3 (length (samples s)) (length recs) (2 + (if prephased s then 0 else 1))
               (transpose_rows (length (samples s)) (map fst recs))"
    using rect3_transpose_rows [of "length (samples s)" _ "map fst recs"] by simp
  then show ?thesis
    using assms(3,4) by (simp add: consistent_def assemble_def wf_ndarray_def index_ok_def)
qed

lemma read_consistent:
  assumes "well_shaped (length smp) 3 records"
    and "read smp records wanted mv new_genotypes = (Returned, s, out)"
  shows "consistent s \<and> \<not> is_bool (data s) \<and> shape2 (data s) = 3 \<and> \<not> prephased s"
proof -
  define s0 where "s0 = new_genotypes\<lparr>samples := smp\<rparr>"
  have s0: "samples s0 = smp" "prephased s0 = False" "samp_idx s0 = None" "var_idx s0 = None"
    by (simp_all add: s0_def new_genotypes_def)
  have w: "well_shaped (length (samples s0)) (2 + (if prephased s0 then 0 else 1)) records"
    using assms(1) by (simp add: s0)
  have c: "consistent (s0\<lparr>variants := fst (assemble recs s0), data := snd (assemble recs s0)\<rparr>)"
    if "set recs \<subseteq> set (emitted (iterate_vcf False wanted 0 records))" for recs
    using that emitted_from_records [of False wanted 0 records]
    by (intro consistent_assemble [OF _ w s0(3,4)]) (auto simp: s0)
  have p: "\<not> is_bool (data (s0\<lparr>variants := fst (assemble recs s0), data := snd (assemble recs s0)\<rparr>))"
    "shape2 (data (s0\<lparr>variants := fst (assemble recs s0), data := snd (assemble recs s0)\<rparr>)) = 3"
    "\<not> prephased (s0\<lparr>variants := fst (assemble recs s0), data := snd (assemble recs s0)\<rparr>)"
    for recs
    by (simp_all add: assemble_def is_bool_def s0)
  define every where "every = emitted (iterate_vcf False wanted 0 records)"
  define eff where
    "eff = (case wanted of None \<Rightarrow> mv | Some ids \<Rightarrow> Some (int (fcard ids)))"
  have run: "read smp records wanted mv new_genotypes =
     (case eff of
        None \<Rightarrow>
          (if every = [] then
             (Raised ValueError, s0\<lparr>variants := []\<rparr>,
              [Warn_no_max_variants, Info_loading (length smp), Info_copying 0,
               Warn_failed_to_load, Info_transposing [0]])
           else
             (Returned,
              s0\<lparr>variants := fst (assemble every s0), data := snd (assemble every s0)\<rparr>,
              [Warn_no_max_variants, Info_loading (length smp), Info_copying (length every)] @
              (if length smp = 0 then [Warn_failed_to_load] else []) @
              [Info_transposing [length every, length smp, 3]]))
      | Some m \<Rightarrow>
          (if m < 0 then (Raised ValueError, s0, [])
           else
             (Returned,
              s0\<lparr>variants := fst (assemble (take (nat m) every) s0),
                 data := snd (assemble (take (nat m) every) s0)\<rparr>,
              [Info_loading (length smp)] @
              (if length (take (nat m) every) < nat m
               then [Info_removing (nat m - length (take (nat m) every))] else []) @
              (if length (take (nat m) every) = 0 \<or> length smp = 0
               then [Warn_failed_to_load] else []) @
              [Info_transposing [length (take (nat m) every), length smp, 3]])))"
    unfolding read_def Let_def s0_def [symmetric] eff_def [symmetric]
    by (cases eff) (simp_all add: s0 every_def read_loop_take)
  have "\<exists>recs. set recs \<subseteq> set every \<and>
          s = s0\<lparr>variants := fst (assemble recs s0), data := snd (assemble recs s0)\<rparr>"
  proof (cases eff)
    case None
    then have "s = s0\<lparr>variants := fst (assemble every s0), data := snd (assemble every s0)\<rparr>"
      using assms(2) run by (simp split: if_splits)
    then show ?thesis by blast
  next
    case (Some m)
    then have "s = s0\<lparr>variants := fst (assemble (take (nat m) every) s0),
                       data := snd (assemble (take (nat m) every) s0)\<rparr>"
      using assms(2) run by (simp split: if_splits)
    moreover have "set (take (nat m) every) \<subseteq> set every" by (rule set_take_subset)
    ultimately show ?thesis by blast
  qed
  then show ?thesis using c p unfolding every_def by blast
qed

lemma and_then_Returned:
  assumes "and_then r f = (Returned, s, out)"
  shows "\<exists>s0 out0 out1. r = (Returned, s0, out0) \<and> f s0 = (Returned, s, out1)"
  using assms
  by (cases r) (auto simp: and_then_def split: outcome.splits prod.splits)

lemma check_missing_keeps_type:
  "check_missing d s = (oc, s', out) \<Longrightarrow>
     is_bool (data s') = is_bool (data s) \<and> shape2 (data s') = shape2 (data s) \<and>
     prephased s' = prephased s"
  by (auto simp: check_missing_def Let_def delete_axis0_def is_bool_def
      split: list.splits if_splits cells.splits)

lemma check_biallelic_keeps_channels:
  "check_biallelic d s = (oc, s', out) \<Longrightarrow>
     shape2 (data s') = shape2 (data s) \<and> prephased s' = prephased s"
  by (auto simp: check_biallelic_def Let_def delete_axis1_def astype_bool_def
      split: list.splits if_splits)

lemma check_phase_drops_channel:
  assumes "check_phase s = (Returned, s', out)" "\<not> prephased s" "shape2 (data s) = 3"
  shows "shape2 (data s') = 2 \<and> is_bool (data s') = is_bool (data s)"
  using assms
  by (auto simp: check_phase_def take_channels_def is_bool_def
      split: list.splits if_splits cells.splits)

lemma load_result:
  assumes "well_shaped (length smp) 3 records"
    and "load smp records wanted = (Returned, s, out)"
  shows "consistent s \<and> is_bool (data s) \<and> shape2 (data s) = 2 \<and> freq_name s = Aaf"
proof -
  obtain s3 o3 o3' where l3: "and_then (and_then (read smp records wanted None new_genotypes)
        (check_missing False)) (check_biallelic False) = (Returned, s3, o3)"
    and r4: "check_phase s3 = (Returned, s, o3')"
    using and_then_Returned [OF assms(2) [unfolded load_def]] by blast
  obtain s2 o2 o2' where l2: "and_then (read smp records wanted None new_genotypes)
        (check_missing False) = (Returned, s2, o2)"
    and r3: "check_biallelic False s2 = (Returned, s3, o2')"
    using and_then_Returned [OF l3] by blast
  obtain s1 o1 o1' where r1: "read smp records wanted None new_genotypes = (Returned, s1, o1)"
    and r2: "check_missing False s1 = (Returned, s2, o1')"
    using and_then_Returned [OF l2] by blast
  have c1: "consistent s1" "shape2 (data s1) = 3" "\<not> prephased s1"
    using read_consistent [OF assms(1) r1] by simp_all
  have c2: "consistent s2" "shape2 (data s2) = 3" "\<not> prephased s2"
    using check_missing_consistent [OF c1(1) r2] check_missing_keeps_type [OF r2] c1(2,3)
    by simp_all
  have c3: "consistent s3" "shape2 (data s3) = 3" "\<not> prephased s3" "is_bool (data s3)"
    using check_biallelic_consistent [OF c2(1) r3] check_biallelic_keeps_channels [OF r3]
      check_biallelic_returns_bool [OF r3] c2(2,3)
    by simp_all
  have "consistent s"
    using check_phase_consistent [OF c3(1) r4] by simp
  moreover have "shape2 (data s) = 2" "is_bool (data s)"
    using check_phase_drops_channel [OF r4 c3(3,2)] c3(4) by simp_all
  ultimately show ?thesis
    using load_keeps_label [OF assms(2)] by simp
qed

end
